theory Spec2Isabelle
  imports Main
begin

section \<open>Data model\<close>

text \<open>
  The table \<^verbatim>\<open>contacts\<close> of the migration: \<^verbatim>\<open>id\<close> SERIAL, \<^verbatim>\<open>phoneNumber\<close>,
  \<^verbatim>\<open>email\<close> and \<^verbatim>\<open>linkedId\<close> nullable, \<^verbatim>\<open>linkPrecedence\<close> TEXT NOT NULL,
  three timestamps of which \<^verbatim>\<open>deletedAt\<close> is nullable. A nullable column is an
  \<open>option\<close> (\<open>None\<close> is SQL NULL), a timestamp is its number of milliseconds,
  \<^verbatim>\<open>linkPrecedence\<close> is the text the column holds. The field \<^verbatim>\<open>id\<close> is named
  \<open>contactId\<close>, since \<open>id\<close> is the identity function of HOL.
\<close>

record contact =
  contactId :: nat
  phoneNumber :: "string option"
  email :: "string option"
  linkedId :: "nat option"
  linkPrecedence :: string
  createdAt :: nat
  updatedAt :: nat
  deletedAt :: "nat option"

text \<open>The interface \<^verbatim>\<open>IdentifyResponse\<close> (its one field \<^verbatim>\<open>contact\<close> unwrapped).\<close>

record response =
  primaryContactId :: nat
  emails :: "string list"
  phoneNumbers :: "string list"
  secondaryContactIds :: "nat list"

text \<open>
  What the code can throw: \<open>TypeError\<close> is the read of a property of \<^verbatim>\<open>undefined\<close>
  (and \<^verbatim>\<open>reduce\<close> of an empty array), \<open>RecordNotFound\<close> is the client's error for an
  \<^verbatim>\<open>update\<close> of an absent row, \<open>StoreFailure\<close> is a transient failure of the store
  (connection loss, timeout).
\<close>

datatype error = TypeError | RecordNotFound | StoreFailure

text \<open>
  The store: the rows of the table in their physical order, the next value of the SERIAL
  sequence, the clock that \<^verbatim>\<open>CURRENT_TIMESTAMP\<close> and \<^verbatim>\<open>new Date()\<close> read, and
  \<open>failAfter\<close>: how many further writes succeed before the store fails (\<open>None\<close>: it
  never fails). The code opens no transaction, so every write that succeeds is committed
  on its own.
\<close>

record store =
  rows :: "contact list"
  nextId :: nat
  clock :: nat
  failAfter :: "nat option"

section \<open>JavaScript values\<close>

text \<open>
  An optional argument \<^verbatim>\<open>email?: string\<close> is a \<open>string option\<close>, \<open>None\<close> being
  \<^verbatim>\<open>undefined\<close>. A string is truthy when it is present and not empty; a number is
  truthy when it is present and not zero, which \<open>visit\<close> below writes out for
  \<open>linkedId\<close>.
\<close>

definition truthy :: "string option \<Rightarrow> bool" where
  "truthy v = (case v of None \<Rightarrow> False | Some s \<Rightarrow> s \<noteq> [])"

text \<open>
  \<^verbatim>\<open>c.email === email\<close>: the left side is a column (a string or \<^verbatim>\<open>null\<close>), the right
  side an argument (a string or \<^verbatim>\<open>undefined\<close>). \<^verbatim>\<open>null === undefined\<close> is false, so
  the two are equal only when both are strings and the strings are equal.
\<close>

definition strictEq :: "string option \<Rightarrow> string option \<Rightarrow> bool" where
  "strictEq column arg = (case arg of None \<Rightarrow> False | Some s \<Rightarrow> column = Some s)"

section \<open>The store's queries\<close>

text \<open>
  \<^verbatim>\<open>findMany\<close> without \<^verbatim>\<open>orderBy\<close> returns the selected rows in the order of the
  table; with \<^verbatim>\<open>orderBy: { createdAt: 'asc' }\<close> it sorts them by \<open>createdAt\<close>, rows of
  equal \<open>createdAt\<close> staying in the order of the table.
\<close>

definition findMany :: "contact list \<Rightarrow> (contact \<Rightarrow> bool) \<Rightarrow> contact list" where
  "findMany rs wh = filter wh rs"

definition findManyAsc :: "contact list \<Rightarrow> (contact \<Rightarrow> bool) \<Rightarrow> contact list" where
  "findManyAsc rs wh = sort_key createdAt (filter wh rs)"

definition findUnique :: "contact list \<Rightarrow> nat \<Rightarrow> contact option" where
  "findUnique rs k = find (\<lambda>r. contactId r = k) rs"

text \<open>
  The three writes. Each one fails, writing nothing, when \<open>failAfter\<close> has reached 0,
  and counts down otherwise. \<^verbatim>\<open>create\<close> takes the id from the sequence and both
  timestamps from the clock; \<^verbatim>\<open>update\<close> throws when no row has the id;
  \<^verbatim>\<open>updateMany\<close> changes every row that has the given \<open>linkedId\<close>, tombstoned or not
  (\<open>demote\<close> and \<open>repoint\<close> are what the two updates do to the rows).
  The ids written into \<open>linkedId\<close> are ids of rows just read, so the foreign key of the
  migration cannot be violated and is not modelled. \<^verbatim>\<open>updateMany\<close> leaves
  \<open>updatedAt\<close> as it is: its data names \<open>linkedId\<close> only, the schema that could
  refresh the column is not among the sources, and nothing reads \<open>updatedAt\<close>.
  Reads do not fail in the model: a failing read writes nothing, so for the store it is
  the failure of the write that would follow it.
\<close>

definition spend :: "store \<Rightarrow> store" where
  "spend st = st\<lparr>failAfter := map_option (\<lambda>n. n - 1) (failAfter st)\<rparr>"

definition db_create ::
  "store \<Rightarrow> string option \<Rightarrow> string option \<Rightarrow> nat option \<Rightarrow> string \<Rightarrow> (error + contact) \<times> store" where
  "db_create st email' phoneNumber' linkedId' linkPrecedence' =
     (if failAfter st = Some 0 then (Inl StoreFailure, st)
      else
        let c = \<lparr>contactId = nextId st, phoneNumber = phoneNumber', email = email',
                 linkedId = linkedId', linkPrecedence = linkPrecedence',
                 createdAt = clock st, updatedAt = clock st, deletedAt = None\<rparr>
        in (Inr c, spend (st\<lparr>rows := rows st @ [c], nextId := Suc (nextId st)\<rparr>)))"

definition demote :: "contact list \<Rightarrow> nat \<Rightarrow> nat \<Rightarrow> nat \<Rightarrow> contact list" where
  "demote rs k newLinkedId now =
     map (\<lambda>r. if contactId r = k
               then r\<lparr>linkedId := Some newLinkedId, linkPrecedence := ''secondary'',
                      updatedAt := now\<rparr>
               else r) rs"

definition repoint :: "contact list \<Rightarrow> nat \<Rightarrow> nat \<Rightarrow> contact list" where
  "repoint rs oldLinkedId newLinkedId =
     map (\<lambda>r. if linkedId r = Some oldLinkedId then r\<lparr>linkedId := Some newLinkedId\<rparr> else r) rs"

definition db_update :: "store \<Rightarrow> nat \<Rightarrow> nat \<Rightarrow> (error + unit) \<times> store" where
  "db_update st k newLinkedId =
     (if failAfter st = Some 0 then (Inl StoreFailure, st)
      else if \<not> (\<exists>r \<in> set (rows st). contactId r = k) then (Inl RecordNotFound, st)
      else (Inr (), spend (st\<lparr>rows := demote (rows st) k newLinkedId (clock st)\<rparr>)))"

definition db_updateMany :: "store \<Rightarrow> nat \<Rightarrow> nat \<Rightarrow> (error + unit) \<times> store" where
  "db_updateMany st oldLinkedId newLinkedId =
     (if failAfter st = Some 0 then (Inl StoreFailure, st)
      else (Inr (), spend (st\<lparr>rows := repoint (rows st) oldLinkedId newLinkedId\<rparr>)))"

section \<open>The resolution algorithm\<close>

subsection \<open>buildResponse\<close>

text \<open>
  The two \<^verbatim>\<open>forEach\<close> loops of \<^verbatim>\<open>buildResponse\<close>, over the field they read: a value
  is pushed when it is truthy and not yet in the array.
\<close>

fun collectValues :: "(contact \<Rightarrow> string option) \<Rightarrow> string list \<Rightarrow> contact list \<Rightarrow> string list" where
  "collectValues fld acc [] = acc"
| "collectValues fld acc (c # cs) =
     collectValues fld
       (case fld c of
          None \<Rightarrow> acc
        | Some v \<Rightarrow> if v \<noteq> [] \<and> v \<notin> set acc then acc @ [v] else acc) cs"

definition firstValue :: "string option \<Rightarrow> string list" where
  "firstValue v = (case v of None \<Rightarrow> [] | Some s \<Rightarrow> if s \<noteq> [] then [s] else [])"

text \<open>
  \<^verbatim>\<open>find(...)!\<close>: the assertion is erased at run time, so without a primary the read
  of \<^verbatim>\<open>primary.email\<close> throws a TypeError.
\<close>

definition buildResponse :: "contact list \<Rightarrow> error + response" where
  "buildResponse contacts =
     (case find (\<lambda>c. linkPrecedence c = ''primary'') contacts of
        None \<Rightarrow> Inl TypeError
      | Some primary \<Rightarrow>
          let secondaries = filter (\<lambda>c. linkPrecedence c = ''secondary'') contacts
          in Inr \<lparr>primaryContactId = contactId primary,
                  emails = collectValues email (firstValue (email primary)) secondaries,
                  phoneNumbers =
                    collectValues phoneNumber (firstValue (phoneNumber primary)) secondaries,
                  secondaryContactIds = map contactId secondaries\<rparr>)"

subsection \<open>shouldCreateSecondary\<close>

definition shouldCreateSecondary ::
  "contact list \<Rightarrow> string option \<Rightarrow> string option \<Rightarrow> bool" where
  "shouldCreateSecondary family email' phoneNumber' =
     (let exactMatch = (\<exists>c \<in> set family.
                          strictEq (email c) email' \<and> strictEq (phoneNumber c) phoneNumber')
      in if exactMatch then False
         else
           let hasEmail = (\<exists>c \<in> set family. strictEq (email c) email');
               hasPhone = (\<exists>c \<in> set family. strictEq (phoneNumber c) phoneNumber')
           in if truthy email' \<and> truthy phoneNumber' then \<not> hasEmail \<or> \<not> hasPhone
              else if truthy email' \<and> \<not> hasEmail then True
              else if truthy phoneNumber' \<and> \<not> hasPhone then True
              else False)"

subsection \<open>getUniquePrimaries\<close>

text \<open>
  \<^verbatim>\<open>Map.set\<close>: a key already in the map keeps its place and takes the new value, a new
  key goes to the end. \<^verbatim>\<open>Array.prototype.sort\<close> is stable, and the comparator reads
  \<open>createdAt\<close> only.
\<close>

fun mapSet :: "(nat \<times> contact) list \<Rightarrow> nat \<Rightarrow> contact \<Rightarrow> (nat \<times> contact) list" where
  "mapSet [] k v = [(k, v)]"
| "mapSet ((k', v') # m) k v = (if k' = k then (k, v) # m else (k', v') # mapSet m k v)"

fun primaryMapOf :: "(nat \<times> contact) list \<Rightarrow> contact list \<Rightarrow> (nat \<times> contact) list" where
  "primaryMapOf m [] = m"
| "primaryMapOf m (c # cs) =
     primaryMapOf (if linkPrecedence c = ''primary'' then mapSet m (contactId c) c else m) cs"

definition getUniquePrimaries :: "contact list \<Rightarrow> contact list" where
  "getUniquePrimaries contacts = sort_key createdAt (map snd (primaryMapOf [] contacts))"

text \<open>
  The \<^verbatim>\<open>reduce\<close> of \<^verbatim>\<open>mergePrimaries\<close>, without an initial value: the first element
  starts as \<open>oldest\<close>, and a later one replaces it only when its \<open>createdAt\<close> is
  strictly smaller. On an empty array \<^verbatim>\<open>reduce\<close> throws.
\<close>

definition oldestOf :: "contact list \<Rightarrow> error + contact" where
  "oldestOf primaries =
     (case primaries of
        [] \<Rightarrow> Inl TypeError
      | p # ps \<Rightarrow>
          Inr (foldl (\<lambda>oldest current.
                        if createdAt current < createdAt oldest then current else oldest) p ps))"

subsection \<open>getAllRelatedContacts\<close>

text \<open>
  One turn of the \<^verbatim>\<open>while\<close> loop for a contact not yet processed: what it pushes on
  \<open>toProcess\<close>. The array is kept as a list whose head is the array's last element, so
  \<^verbatim>\<open>pop\<close> takes the head and \<^verbatim>\<open>push\<close> conses. \<open>processed\<close> already holds the
  contact's own id. \<^verbatim>\<open>findUnique\<close> has no filter on \<open>deletedAt\<close>.
\<close>

definition visit :: "contact list \<Rightarrow> contact \<Rightarrow> nat set \<Rightarrow> contact list \<Rightarrow> contact list" where
  "visit rs c processed toProcess =
     (let toProcess1 =
            (case linkedId c of
               None \<Rightarrow> toProcess
             | Some k \<Rightarrow>
                 if k = 0 then toProcess
                 else (case findUnique rs k of
                         None \<Rightarrow> toProcess
                       | Some primary \<Rightarrow>
                           if contactId primary \<notin> processed then primary # toProcess
                           else toProcess))
      in if linkPrecedence c = ''primary''
         then rev (filter (\<lambda>s. contactId s \<notin> processed)
                     (findMany rs (\<lambda>r. linkedId r = Some (contactId c) \<and> deletedAt r = None)))
              @ toProcess1
         else toProcess1)"

function expandLoop :: "contact list \<Rightarrow> contact list \<Rightarrow> nat set \<Rightarrow> nat set \<Rightarrow> nat set" where
  "expandLoop rs [] processed contactIds = contactIds"
| "expandLoop rs (c # toProcess) processed contactIds =
     (if contactId c \<in> processed then expandLoop rs toProcess processed contactIds
      else expandLoop rs (visit rs c (insert (contactId c) processed) toProcess)
             (insert (contactId c) processed) (insert (contactId c) contactIds))"
  by pat_completeness auto

definition getAllRelatedContacts :: "contact list \<Rightarrow> contact list \<Rightarrow> contact list" where
  "getAllRelatedContacts rs matches =
     (if length matches = 0 then []
      else findManyAsc rs
             (\<lambda>r. contactId r \<in> expandLoop rs (rev matches) {} {} \<and> deletedAt r = None))"

subsection \<open>mergePrimaries\<close>

text \<open>
  The \<^verbatim>\<open>for\<close> loop over \<open>otherPrimaries\<close>: two writes for each, the second only when
  the first succeeded; a failure leaves the loop with the store as the writes before it
  made it.
\<close>

fun mergeLoop :: "store \<Rightarrow> nat \<Rightarrow> contact list \<Rightarrow> (error + unit) \<times> store" where
  "mergeLoop st oldestId [] = (Inr (), st)"
| "mergeLoop st oldestId (primary # otherPrimaries) =
     (case db_update st (contactId primary) oldestId of
        (Inl e, st1) \<Rightarrow> (Inl e, st1)
      | (Inr u, st1) \<Rightarrow>
          (case db_updateMany st1 (contactId primary) oldestId of
             (Inl e, st2) \<Rightarrow> (Inl e, st2)
           | (Inr u', st2) \<Rightarrow> mergeLoop st2 oldestId otherPrimaries))"

text \<open>The parameter \<open>allContacts\<close> is not read by the source either.\<close>

definition mergePrimaries ::
  "store \<Rightarrow> contact list \<Rightarrow> contact list \<Rightarrow> string option \<Rightarrow> string option
     \<Rightarrow> (error + response) \<times> store" where
  "mergePrimaries st primaries allContacts email' phoneNumber' =
     (case oldestOf primaries of
        Inl e \<Rightarrow> (Inl e, st)
      | Inr oldestPrimary \<Rightarrow>
          let otherPrimaries =
                filter (\<lambda>p. contactId p \<noteq> contactId oldestPrimary) primaries
          in case mergeLoop st (contactId oldestPrimary) otherPrimaries of
               (Inl e, st1) \<Rightarrow> (Inl e, st1)
             | (Inr u, st1) \<Rightarrow>
                 let updatedFamily =
                       findManyAsc (rows st1)
                         (\<lambda>r. (contactId r = contactId oldestPrimary
                                \<or> linkedId r = Some (contactId oldestPrimary))
                               \<and> deletedAt r = None)
                 in if shouldCreateSecondary updatedFamily email' phoneNumber'
                    then (case db_create st1 email' phoneNumber'
                                 (Some (contactId oldestPrimary)) ''secondary'' of
                            (Inl e, st2) \<Rightarrow> (Inl e, st2)
                          | (Inr newSecondary, st2) \<Rightarrow>
                              (buildResponse (updatedFamily @ [newSecondary]), st2))
                    else (buildResponse updatedFamily, st1))"

subsection \<open>identifyContact\<close>

text \<open>
  The \<^verbatim>\<open>where\<close> of the first query: a clause for each truthy identifier, joined by OR
  (an empty OR selects nothing), and \<open>deletedAt\<close> null.
\<close>

definition matchWhere :: "string option \<Rightarrow> string option \<Rightarrow> contact \<Rightarrow> bool" where
  "matchWhere email' phoneNumber' r =
     (((truthy email' \<and> email r = email') \<or> (truthy phoneNumber' \<and> phoneNumber r = phoneNumber'))
      \<and> deletedAt r = None)"

definition identifyContact ::
  "store \<Rightarrow> string option \<Rightarrow> string option \<Rightarrow> (error + response) \<times> store" where
  "identifyContact st email' phoneNumber' =
     (let matches = findManyAsc (rows st) (matchWhere email' phoneNumber');
          allRelatedContacts = getAllRelatedContacts (rows st) matches;
          primaries = getUniquePrimaries allRelatedContacts
      in if length primaries = 0
         then (case db_create st email' phoneNumber' None ''primary'' of
                 (Inl e, st1) \<Rightarrow> (Inl e, st1)
               | (Inr newContact, st1) \<Rightarrow> (buildResponse [newContact], st1))
         else if length primaries = 1
         then (let primary = hd primaries;
                   family = filter (\<lambda>c. contactId c = contactId primary
                                         \<or> linkedId c = Some (contactId primary))
                              allRelatedContacts
               in if shouldCreateSecondary family email' phoneNumber'
                  then (case db_create st email' phoneNumber'
                               (Some (contactId primary)) ''secondary'' of
                          (Inl e, st1) \<Rightarrow> (Inl e, st1)
                        | (Inr newSecondary, st1) \<Rightarrow>
                            (buildResponse (family @ [newSecondary]), st1))
                  else (buildResponse family, st))
         else mergePrimaries st primaries allRelatedContacts email' phoneNumber')"

section \<open>Notions of the specification\<close>

text \<open>
  An identifier of a request is supplied when it is truthy: this is the test of the
  request layer's validation and of the matcher.
\<close>

definition supplied :: "string option \<Rightarrow> bool" where
  "supplied arg = truthy arg"

text \<open>
  Field-for-field equality of a stored field and a request's: an absent field of the
  request equals the stored one only when that one is absent too.
\<close>

definition fieldEqual :: "string option \<Rightarrow> string option \<Rightarrow> bool" where
  "fieldEqual column arg = (if supplied arg then column = arg else column = None)"

text \<open>The decision rules of the SecondaryCreator, in the specification's words.\<close>

definition createRule :: "contact list \<Rightarrow> string option \<Rightarrow> string option \<Rightarrow> bool" where
  "createRule family email' phoneNumber' =
     (if \<exists>c \<in> set family. fieldEqual (email c) email' \<and> fieldEqual (phoneNumber c) phoneNumber'
      then False
      else (supplied email' \<and> supplied phoneNumber'
              \<and> (email' \<notin> email ` set family \<or> phoneNumber' \<notin> phoneNumber ` set family))
           \<or> (supplied email' \<and> \<not> supplied phoneNumber' \<and> email' \<notin> email ` set family)
           \<or> (\<not> supplied email' \<and> supplied phoneNumber'
                \<and> phoneNumber' \<notin> phoneNumber ` set family))"

text \<open>Ascending by \<open>createdAt\<close>, with the id ascending as a tie-break.\<close>

definition ascByCreatedAtThenId :: "contact list \<Rightarrow> bool" where
  "ascByCreatedAtThenId cs =
     sorted_wrt (\<lambda>a b. createdAt a < createdAt b
                       \<or> (createdAt a = createdAt b \<and> contactId a \<le> contactId b)) cs"

text \<open>
  The list of values of the ResponseBuilder, in the specification's words: the primary's
  value first if present, then each secondary's value in the order of the family,
  skipping nulls and any value already included.
\<close>

definition listedValues ::
  "(contact \<Rightarrow> string option) \<Rightarrow> contact \<Rightarrow> contact list \<Rightarrow> string list" where
  "listedValues fld primary secondaries =
     fold (\<lambda>c acc. case fld c of
                      None \<Rightarrow> acc
                    | Some v \<Rightarrow> if v \<in> set acc then acc else acc @ [v])
          secondaries
          (case fld primary of None \<Rightarrow> [] | Some v \<Rightarrow> [v])"

text \<open>The same field with the empty string read as null.\<close>

definition nonEmpty :: "string option \<Rightarrow> string option" where
  "nonEmpty v = (if v = Some [] then None else v)"

text \<open>
  The link relation of the GraphExpander: from a secondary to the contact its \<open>linkedId\<close>
  names, from a primary to the contacts whose \<open>linkedId\<close> names it; tombstoned contacts
  are not reached.
\<close>

definition linked :: "contact list \<Rightarrow> contact \<Rightarrow> contact \<Rightarrow> bool" where
  "linked rs c c' =
     (c' \<in> set rs \<and> deletedAt c' = None
      \<and> ((linkPrecedence c = ''secondary'' \<and> linkedId c = Some (contactId c'))
         \<or> (linkPrecedence c = ''primary'' \<and> linkedId c' = Some (contactId c))))"

text \<open>
  What one turn of the loop looks up for a contact: the row its \<open>linkedId\<close> names, if
  the \<open>linkedId\<close> is truthy, and, for a primary, the rows not tombstoned that name it.
\<close>

definition linkTargets :: "contact list \<Rightarrow> contact \<Rightarrow> contact set" where
  "linkTargets rs c =
     (case linkedId c of
        None \<Rightarrow> {}
      | Some k \<Rightarrow> if k = 0 then {} else set_option (findUnique rs k))
     \<union> (if linkPrecedence c = ''primary''
        then {r \<in> set rs. linkedId r = Some (contactId c) \<and> deletedAt r = None}
        else {})"

text \<open>
  The relation the loop follows, one lookup at a time, and the condition under which it
  is the link relation: a \<open>linkedId\<close> that names a row of the table sits on a secondary
  and names a row that is not tombstoned.
\<close>

definition follows :: "contact list \<Rightarrow> contact \<Rightarrow> contact \<Rightarrow> bool" where
  "follows rs c c' = (c' \<in> linkTargets rs c)"

definition linksWellFormed :: "contact list \<Rightarrow> bool" where
  "linksWellFormed rs =
     (\<forall>c \<in> set rs. \<forall>t \<in> set rs.
        linkedId c = Some (contactId t) \<longrightarrow>
        linkPrecedence c = ''secondary'' \<and> deletedAt t = None)"

text \<open>
  The writes of the merge loop, in the order the loop issues them: for each other primary
  its demotion, then the repointing of its dependents.
\<close>

datatype storeWrite = Demote nat | Repoint nat

fun applyWrite :: "nat \<Rightarrow> nat \<Rightarrow> contact list \<Rightarrow> storeWrite \<Rightarrow> contact list" where
  "applyWrite oldestId now rs (Demote k) = demote rs k oldestId now"
| "applyWrite oldestId now rs (Repoint k) = repoint rs k oldestId"

definition mergeWrites :: "contact list \<Rightarrow> storeWrite list" where
  "mergeWrites otherPrimaries =
     concat (map (\<lambda>p. [Demote (contactId p), Repoint (contactId p)]) otherPrimaries)"

text \<open>How many of \<open>n\<close> writes the store lets through before it fails.\<close>

definition writesDone :: "store \<Rightarrow> nat \<Rightarrow> nat" where
  "writesDone st n = (case failAfter st of None \<Rightarrow> n | Some k \<Rightarrow> min k n)"

text \<open>
  The invariants of the data model. The table: ids distinct and taken from the sequence,
  which starts at 1; a precedence is \<open>primary\<close> or \<open>secondary\<close>; \<open>linkedId\<close> is
  present on secondaries only.
\<close>

definition tableOk :: "store \<Rightarrow> bool" where
  "tableOk st =
     (distinct (map contactId (rows st)) \<and> 0 < nextId st
      \<and> (\<forall>r \<in> set (rows st).
            0 < contactId r \<and> contactId r < nextId st
          \<and> (linkPrecedence r = ''primary'' \<or> linkPrecedence r = ''secondary'')
          \<and> (linkPrecedence r = ''primary'' \<longrightarrow> linkedId r = None)))"

text \<open>Invariant 1: every secondary's \<open>linkedId\<close> resolves to a primary that is not
  tombstoned.\<close>

definition linksResolve :: "contact list \<Rightarrow> bool" where
  "linksResolve rs =
     (\<forall>r \<in> set rs. linkPrecedence r = ''secondary'' \<longrightarrow>
        (\<exists>p \<in> set rs. linkedId r = Some (contactId p)
           \<and> linkPrecedence p = ''primary'' \<and> deletedAt p = None))"

text \<open>Invariant 2: no contact references a secondary.\<close>

definition depthOne :: "contact list \<Rightarrow> bool" where
  "depthOne rs =
     (\<forall>r \<in> set rs. \<forall>s \<in> set rs.
        linkedId r = Some (contactId s) \<longrightarrow> linkPrecedence s \<noteq> ''secondary'')"

text \<open>
  Invariant 3: two contacts are adjacent when one's \<open>linkedId\<close> names the other; a
  connected component is what is reachable along adjacent contacts, and it has exactly
  one primary.
\<close>

definition adjacent :: "contact list \<Rightarrow> contact \<Rightarrow> contact \<Rightarrow> bool" where
  "adjacent rs a b =
     (a \<in> set rs \<and> b \<in> set rs
      \<and> (linkedId a = Some (contactId b) \<or> linkedId b = Some (contactId a)))"

definition onePrimaryPerComponent :: "contact list \<Rightarrow> bool" where
  "onePrimaryPerComponent rs =
     (\<forall>c \<in> set rs. \<exists>!p. (adjacent rs)\<^sup>*\<^sup>* c p \<and> linkPrecedence p = ''primary'')"

text \<open>
  The table's invariant in one piece (table and invariant 1, without the sequence), and
  with the sequence; \<open>rootId\<close> is the id of the primary of a contact's family.
\<close>

definition flat :: "contact list \<Rightarrow> bool" where
  "flat rs =
     (distinct (map contactId rs)
      \<and> (\<forall>r \<in> set rs.
            contactId r \<noteq> 0
          \<and> (linkPrecedence r = ''primary'' \<or> linkPrecedence r = ''secondary'')
          \<and> (linkPrecedence r = ''primary'' \<longrightarrow> linkedId r = None)
          \<and> (linkPrecedence r = ''secondary'' \<longrightarrow>
                (\<exists>p \<in> set rs. linkedId r = Some (contactId p)
                   \<and> linkPrecedence p = ''primary'' \<and> deletedAt p = None))))"

definition storeInv :: "store \<Rightarrow> bool" where
  "storeInv st =
     (flat (rows st) \<and> 0 < nextId st \<and> (\<forall>r \<in> set (rows st). contactId r < nextId st))"

definition rootId :: "contact \<Rightarrow> nat" where
  "rootId r = (case linkedId r of None \<Rightarrow> contactId r | Some k \<Rightarrow> k)"

text \<open>What the two writes of one turn of the merge loop do to a row.\<close>

definition mergeRow :: "nat \<Rightarrow> nat \<Rightarrow> nat \<Rightarrow> contact \<Rightarrow> contact" where
  "mergeRow k oldestId now r =
     (if contactId r = k
      then r\<lparr>linkedId := Some oldestId, linkPrecedence := ''secondary'', updatedAt := now\<rparr>
      else if linkedId r = Some k then r\<lparr>linkedId := Some oldestId\<rparr>
      else r)"

text \<open>
  The expanded set, the selected primaries and the family that \<open>identifyContact\<close>
  computes before it decides.
\<close>

definition relatedOf :: "store \<Rightarrow> string option \<Rightarrow> string option \<Rightarrow> contact list" where
  "relatedOf st email' phoneNumber' =
     getAllRelatedContacts (rows st) (findManyAsc (rows st) (matchWhere email' phoneNumber'))"

definition primariesOf :: "store \<Rightarrow> string option \<Rightarrow> string option \<Rightarrow> contact list" where
  "primariesOf st email' phoneNumber' = getUniquePrimaries (relatedOf st email' phoneNumber')"

definition familyOf :: "contact \<Rightarrow> contact list \<Rightarrow> contact list" where
  "familyOf primary allRelatedContacts =
     filter (\<lambda>c. contactId c = contactId primary \<or> linkedId c = Some (contactId primary))
       allRelatedContacts"

text \<open>
  The contacts the first query of a request selects, and the test of belonging to the
  family of one of them.
\<close>

definition matched :: "store \<Rightarrow> string option \<Rightarrow> string option \<Rightarrow> contact set" where
  "matched st email' phoneNumber' = {m \<in> set (rows st). matchWhere email' phoneNumber' m}"

definition inFamilies :: "store \<Rightarrow> string option \<Rightarrow> string option \<Rightarrow> contact \<Rightarrow> bool" where
  "inFamilies st email' phoneNumber' r =
     (deletedAt r = None \<and> rootId r \<in> rootId ` matched st email' phoneNumber')"

text \<open>
  What the whole merge loop does to a row, for the set \<open>K\<close> of the ids of the other
  primaries; the store it leaves, and the family it then reads.
\<close>

definition mergeAll :: "nat set \<Rightarrow> nat \<Rightarrow> nat \<Rightarrow> contact \<Rightarrow> contact" where
  "mergeAll K oldestId now r =
     (if contactId r \<in> K
      then r\<lparr>linkedId := Some oldestId, linkPrecedence := ''secondary'', updatedAt := now\<rparr>
      else if (\<exists>k \<in> K. linkedId r = Some k) then r\<lparr>linkedId := Some oldestId\<rparr>
      else r)"

definition mergedStore :: "store \<Rightarrow> contact \<Rightarrow> contact list \<Rightarrow> store" where
  "mergedStore st oldest others =
     st\<lparr>rows := map (mergeAll (contactId ` set others) (contactId oldest) (clock st)) (rows st)\<rparr>"

definition survivorFamily :: "contact list \<Rightarrow> contact \<Rightarrow> contact list" where
  "survivorFamily rs oldest =
     findManyAsc rs (\<lambda>r. (contactId r = contactId oldest \<or> linkedId r = Some (contactId oldest))
                          \<and> deletedAt r = None)"

section \<open>Example rows\<close>

definition row ::
  "nat \<Rightarrow> string option \<Rightarrow> string option \<Rightarrow> nat option \<Rightarrow> string \<Rightarrow> nat \<Rightarrow> nat option \<Rightarrow> contact" where
  "row i e p l prec t d =
     \<lparr>contactId = i, phoneNumber = p, email = e, linkedId = l, linkPrecedence = prec,
      createdAt = t, updatedAt = t, deletedAt = d\<rparr>"

section \<open>Termination of the graph expansion\<close>

lemma visit_subset: "set (visit rs c processed toProcess) \<subseteq> set rs \<union> set toProcess"
  by (auto simp: visit_def findMany_def findUnique_def find_Some_iff
      split: option.splits if_splits)

text \<open>
  Every turn of the loop either pops a contact already processed, or adds to
  \<open>processed\<close> an id of the table or of the stack that was not in it; what is pushed
  comes from the table.
\<close>

lemma expandLoop_total: "All expandLoop_dom"
proof (relation "inv_image (finite_psubset <*lex*> less_than)
         (\<lambda>(rs, toProcess, processed, contactIds).
            ((contactId ` set rs \<union> contactId ` set toProcess) - processed, length toProcess))",
       goal_cases)
  case 1
  show ?case by auto
next
  case (2 rs c toProcess processed contactIds)
  then show ?case by (auto simp: finite_psubset_def)
next
  case (3 rs c toProcess processed contactIds)
  have "contactId ` set (visit rs c (insert (contactId c) processed) toProcess)
          \<subseteq> contactId ` set rs \<union> contactId ` set toProcess"
    using visit_subset by blast
  with 3 show ?case by (auto simp: finite_psubset_def)
qed

termination expandLoop
  by (rule expandLoop_total)

section \<open>buildResponse\<close>

lemma find_first_split:
  assumes "\<exists>c \<in> set contacts. P c"
  shows "\<exists>before x after. contacts = before @ x # after \<and> P x
           \<and> (\<forall>c \<in> set before. \<not> P c) \<and> find P contacts = Some x"
proof -
  from assms obtain before x after where
    split: "contacts = before @ x # after" "P x" "\<forall>c \<in> set before. \<not> P c"
    using split_list_first_prop[of contacts P] by blast
  then have "find P contacts = Some x"
    by (auto simp: find_Some_iff nth_append intro!: exI[of _ "length before"])
  with split show ?thesis by blast
qed

text \<open>
  C10. With a contact of \<open>linkPrecedence\<close> \<open>primary\<close> in the list, \<open>buildResponse\<close>
  returns a response, and its \<open>primaryContactId\<close> is the id of the first such contact
  in list order; without one, the lookup yields \<^verbatim>\<open>undefined\<close> and the function
  throws instead of returning.
\<close>

theorem buildResponse_needs_primary:
  "((\<exists>c \<in> set contacts. linkPrecedence c = ''primary'') \<longrightarrow>
      (\<exists>before primary after r.
          contacts = before @ primary # after
        \<and> (\<forall>c \<in> set before. linkPrecedence c \<noteq> ''primary'')
        \<and> linkPrecedence primary = ''primary''
        \<and> buildResponse contacts = Inr r
        \<and> primaryContactId r = contactId primary))
   \<and> ((\<forall>c \<in> set contacts. linkPrecedence c \<noteq> ''primary'') \<longrightarrow>
        buildResponse contacts = Inl TypeError)"
proof (intro conjI impI)
  assume "\<exists>c \<in> set contacts. linkPrecedence c = ''primary''"
  from find_first_split[OF this] obtain before primary after where
    split: "contacts = before @ primary # after" "linkPrecedence primary = ''primary''"
      "\<forall>c \<in> set before. linkPrecedence c \<noteq> ''primary''"
      "find (\<lambda>c. linkPrecedence c = ''primary'') contacts = Some primary"
    by blast
  then have "\<exists>r. buildResponse contacts = Inr r \<and> primaryContactId r = contactId primary"
    by (simp add: buildResponse_def Let_def)
  with split show "\<exists>before primary after r.
          contacts = before @ primary # after
        \<and> (\<forall>c \<in> set before. linkPrecedence c \<noteq> ''primary'')
        \<and> linkPrecedence primary = ''primary''
        \<and> buildResponse contacts = Inr r
        \<and> primaryContactId r = contactId primary"
    by blast
next
  assume "\<forall>c \<in> set contacts. linkPrecedence c \<noteq> ''primary''"
  then have "find (\<lambda>c. linkPrecedence c = ''primary'') contacts = None"
    by (simp add: find_None_iff)
  then show "buildResponse contacts = Inl TypeError"
    by (simp add: buildResponse_def)
qed

theorem buildResponse_needs_primary_witness:
  "(\<exists>c \<in> set [row 2 None None (Some 1) ''secondary'' 5 None,
                 row 1 (Some ''a@x.com'') None None ''primary'' 3 None,
                 row 7 None (Some ''5'') None ''primary'' 4 None].
      linkPrecedence c = ''primary'')
   \<and> (\<exists>r. buildResponse [row 2 None None (Some 1) ''secondary'' 5 None,
                          row 1 (Some ''a@x.com'') None None ''primary'' 3 None,
                          row 7 None (Some ''5'') None ''primary'' 4 None] = Inr r
          \<and> primaryContactId r = 1)
   \<and> \<not> (\<exists>c \<in> set [row 2 None None (Some 1) ''secondary'' 5 None].
           linkPrecedence c = ''primary'')
   \<and> buildResponse [row 2 None None (Some 1) ''secondary'' 5 None] = Inl TypeError"
  using buildResponse_needs_primary
          [of "[row 2 None None (Some 1) ''secondary'' 5 None,
                row 1 (Some ''a@x.com'') None None ''primary'' 3 None,
                row 7 None (Some ''5'') None ''primary'' 4 None]"]
        buildResponse_needs_primary [of "[row 2 None None (Some 1) ''secondary'' 5 None]"]
  by (simp add: row_def buildResponse_def)

section \<open>shouldCreateSecondary\<close>

text \<open>
  C5. \<open>shouldCreateSecondary\<close> decides as the rules say: no creation when a member of
  the family has the request's pair field for field (an absent field of the request
  matching only an absent field of the member); otherwise creation exactly when both
  identifiers are supplied and one of them appears nowhere in the family, or one is
  supplied and no member carries it.
\<close>

theorem shouldCreateSecondary_rule:
  "shouldCreateSecondary family email' phoneNumber' = createRule family email' phoneNumber'"
proof (cases email'; cases phoneNumber')
  show "shouldCreateSecondary family email' phoneNumber' = createRule family email' phoneNumber'"
    if "email' = None" "phoneNumber' = None"
    using that
    by (auto simp: shouldCreateSecondary_def createRule_def fieldEqual_def supplied_def
        strictEq_def truthy_def)
  show "shouldCreateSecondary family email' phoneNumber' = createRule family email' phoneNumber'"
    if "email' = None" "phoneNumber' = Some p" for p
    using that
    by (auto simp: shouldCreateSecondary_def createRule_def fieldEqual_def supplied_def
        strictEq_def truthy_def image_iff) metis+
  show "shouldCreateSecondary family email' phoneNumber' = createRule family email' phoneNumber'"
    if "email' = Some e" "phoneNumber' = None" for e
    using that
    by (auto simp: shouldCreateSecondary_def createRule_def fieldEqual_def supplied_def
        strictEq_def truthy_def image_iff) metis+
  show "shouldCreateSecondary family email' phoneNumber' = createRule family email' phoneNumber'"
    if "email' = Some e" "phoneNumber' = Some p" for e p
    using that
    by (auto simp: shouldCreateSecondary_def createRule_def fieldEqual_def supplied_def
        strictEq_def truthy_def image_iff) metis+
qed

theorem shouldCreateSecondary_rule_witness:
  "shouldCreateSecondary [row 1 (Some ''a@x.com'') (Some ''123'') None ''primary'' 3 None]
     (Some ''a@x.com'') (Some ''999'')
   \<and> createRule [row 1 (Some ''a@x.com'') (Some ''123'') None ''primary'' 3 None]
        (Some ''a@x.com'') (Some ''999'')
   \<and> \<not> shouldCreateSecondary [row 1 (Some ''a@x.com'') None None ''primary'' 3 None]
        (Some ''a@x.com'') None
   \<and> \<not> createRule [row 1 (Some ''a@x.com'') None None ''primary'' 3 None]
        (Some ''a@x.com'') None"
  using shouldCreateSecondary_rule
          [of "[row 1 (Some ''a@x.com'') (Some ''123'') None ''primary'' 3 None]"
              "Some ''a@x.com''" "Some ''999''"]
        shouldCreateSecondary_rule
          [of "[row 1 (Some ''a@x.com'') None None ''primary'' 3 None]" "Some ''a@x.com''" None]
  by (simp add: row_def shouldCreateSecondary_def strictEq_def truthy_def)

section \<open>getUniquePrimaries and the survivor\<close>

lemma mapSet_fresh: "k \<notin> fst ` set m \<Longrightarrow> mapSet m k v = m @ [(k, v)]"
  by (induction m) auto

lemma primaryMapOf_distinct:
  "distinct (map contactId cs) \<Longrightarrow> fst ` set m \<inter> contactId ` set cs = {} \<Longrightarrow>
   primaryMapOf m cs =
     m @ map (\<lambda>c. (contactId c, c)) (filter (\<lambda>c. linkPrecedence c = ''primary'') cs)"
proof (induction cs arbitrary: m)
  case Nil
  then show ?case by simp
next
  case (Cons c cs)
  show ?case
  proof (cases "linkPrecedence c = ''primary''")
    case True
    have fresh: "contactId c \<notin> fst ` set m" using Cons.prems(2) by auto
    have "fst ` set (m @ [(contactId c, c)]) \<inter> contactId ` set cs = {}"
      using Cons.prems by auto
    with Cons.IH[of "m @ [(contactId c, c)]"] Cons.prems(1) True fresh show ?thesis
      by (simp add: mapSet_fresh)
  next
    case False
    have "fst ` set m \<inter> contactId ` set cs = {}" using Cons.prems(2) by auto
    with Cons.IH[of m] Cons.prems(1) False show ?thesis by simp
  qed
qed

lemma getUniquePrimaries_distinct:
  "distinct (map contactId cs) \<Longrightarrow>
   getUniquePrimaries cs = sort_key createdAt (filter (\<lambda>c. linkPrecedence c = ''primary'') cs)"
  by (simp add: getUniquePrimaries_def primaryMapOf_distinct comp_def)

lemma foldl_oldest_least:
  "\<forall>q \<in> set ps. createdAt p \<le> createdAt q \<Longrightarrow>
   foldl (\<lambda>oldest current. if createdAt current < createdAt oldest then current else oldest) p ps
     = p"
  by (induction ps) auto

lemma oldestOf_sorted: "sorted (map createdAt (p # ps)) \<Longrightarrow> oldestOf (p # ps) = Inr p"
  by (simp add: oldestOf_def foldl_oldest_least)

lemma foldl_oldest_mem:
  "foldl (\<lambda>oldest current. if createdAt current < createdAt oldest then current else oldest) p ps
     \<in> set (p # ps)"
  by (induction ps arbitrary: p) auto

lemma oldestOf_mem: "oldestOf ps = Inr p \<Longrightarrow> p \<in> set ps"
  using foldl_oldest_mem by (cases ps) (auto simp: oldestOf_def)

text \<open>
  C6, as stated, fails: two primaries of equal \<open>createdAt\<close> that the expanded set lists
  with the larger id first are selected in that order, and the one with the larger id is
  elected survivor. Neither the comparator of the sort nor the \<^verbatim>\<open>reduce\<close> reads the id.
\<close>

theorem survivor_no_id_tie_break:
  "\<not> ascByCreatedAtThenId
        (getUniquePrimaries [row 2 None (Some ''222'') None ''primary'' 5 None,
                             row 1 None (Some ''111'') None ''primary'' 5 None])
   \<and> oldestOf (getUniquePrimaries [row 2 None (Some ''222'') None ''primary'' 5 None,
                                   row 1 None (Some ''111'') None ''primary'' 5 None])
       = Inr (row 2 None (Some ''222'') None ''primary'' 5 None)"
  by code_simp

text \<open>
  C6, amended. For an expanded set with distinct ids, the selected primaries are its
  primaries sorted ascending by \<open>createdAt\<close>, primaries of equal \<open>createdAt\<close> staying in
  the order of the expanded set; the survivor is the first selected primary, and no
  primary has a smaller \<open>createdAt\<close>.
\<close>

theorem primaries_sorted_stable:
  assumes "distinct (map contactId contacts)"
  shows "getUniquePrimaries contacts
           = sort_key createdAt (filter (\<lambda>c. linkPrecedence c = ''primary'') contacts)
       \<and> sorted (map createdAt (getUniquePrimaries contacts))
       \<and> (\<forall>t. filter (\<lambda>c. createdAt c = t) (getUniquePrimaries contacts)
                = filter (\<lambda>c. createdAt c = t)
                    (filter (\<lambda>c. linkPrecedence c = ''primary'') contacts))
       \<and> (\<forall>p rest. getUniquePrimaries contacts = p # rest \<longrightarrow>
             oldestOf (getUniquePrimaries contacts) = Inr p
           \<and> (\<forall>q \<in> set (p # rest). createdAt p \<le> createdAt q))"
proof -
  let ?ps = "getUniquePrimaries contacts"
  have eq: "?ps = sort_key createdAt (filter (\<lambda>c. linkPrecedence c = ''primary'') contacts)"
    using assms by (rule getUniquePrimaries_distinct)
  have srt: "sorted (map createdAt ?ps)"
    by (simp add: getUniquePrimaries_def)
  have stable: "\<forall>t. filter (\<lambda>c. createdAt c = t) ?ps
                = filter (\<lambda>c. createdAt c = t)
                    (filter (\<lambda>c. linkPrecedence c = ''primary'') contacts)"
    unfolding eq by (simp add: sort_key_stable del: filter_filter)
  have surv: "\<forall>p rest. ?ps = p # rest \<longrightarrow>
             oldestOf ?ps = Inr p \<and> (\<forall>q \<in> set (p # rest). createdAt p \<le> createdAt q)"
  proof (intro allI impI)
    fix p rest
    assume ps: "?ps = p # rest"
    with srt have s: "sorted (map createdAt (p # rest))" by simp
    then have "oldestOf (p # rest) = Inr p" by (rule oldestOf_sorted)
    moreover from s have "\<forall>q \<in> set (p # rest). createdAt p \<le> createdAt q" by auto
    ultimately show "oldestOf ?ps = Inr p \<and> (\<forall>q \<in> set (p # rest). createdAt p \<le> createdAt q)"
      using ps by simp
  qed
  from eq srt stable surv show ?thesis by blast
qed

theorem primaries_sorted_stable_witness:
  "distinct (map contactId [row 2 None (Some ''222'') None ''primary'' 5 None,
                            row 3 None (Some ''111'') (Some 2) ''secondary'' 6 None,
                            row 1 None (Some ''111'') None ''primary'' 5 None])
   \<and> getUniquePrimaries [row 2 None (Some ''222'') None ''primary'' 5 None,
                         row 3 None (Some ''111'') (Some 2) ''secondary'' 6 None,
                         row 1 None (Some ''111'') None ''primary'' 5 None]
       = [row 2 None (Some ''222'') None ''primary'' 5 None,
          row 1 None (Some ''111'') None ''primary'' 5 None]
   \<and> oldestOf (getUniquePrimaries [row 2 None (Some ''222'') None ''primary'' 5 None,
                         row 3 None (Some ''111'') (Some 2) ''secondary'' 6 None,
                         row 1 None (Some ''111'') None ''primary'' 5 None])
       = Inr (row 2 None (Some ''222'') None ''primary'' 5 None)"
proof -
  have d: "distinct (map contactId [row 2 None (Some ''222'') None ''primary'' 5 None,
                            row 3 None (Some ''111'') (Some 2) ''secondary'' 6 None,
                            row 1 None (Some ''111'') None ''primary'' 5 None])"
    by (simp add: row_def)
  have e: "sort_key createdAt (filter (\<lambda>c. linkPrecedence c = ''primary'')
             [row 2 None (Some ''222'') None ''primary'' 5 None,
              row 3 None (Some ''111'') (Some 2) ''secondary'' 6 None,
              row 1 None (Some ''111'') None ''primary'' 5 None])
           = [row 2 None (Some ''222'') None ''primary'' 5 None,
              row 1 None (Some ''111'') None ''primary'' 5 None]"
    by (simp add: row_def)
  from primaries_sorted_stable[OF d] d e show ?thesis by simp
qed

section \<open>The lists of the response\<close>

lemma collectValues_fold:
  "collectValues fld acc cs =
     fold (\<lambda>c acc. case nonEmpty (fld c) of
                      None \<Rightarrow> acc
                    | Some v \<Rightarrow> if v \<in> set acc then acc else acc @ [v]) cs acc"
  by (induction cs arbitrary: acc) (auto simp: nonEmpty_def split: option.splits)

lemma firstValue_nonEmpty:
  "firstValue v = (case nonEmpty v of None \<Rightarrow> [] | Some s \<Rightarrow> [s])"
  by (auto simp: firstValue_def nonEmpty_def split: option.splits)

lemma collectValues_listed:
  "collectValues fld (firstValue (fld primary)) secondaries
     = listedValues (\<lambda>c. nonEmpty (fld c)) primary secondaries"
  by (simp add: collectValues_fold firstValue_nonEmpty listedValues_def)

lemma collectValues_distinct: "distinct acc \<Longrightarrow> distinct (collectValues fld acc cs)"
  by (induction cs arbitrary: acc) (auto split: option.splits)

lemma collectValues_extends: "\<exists>rest. collectValues fld acc cs = acc @ rest"
proof (induction cs arbitrary: acc)
  case Nil
  show ?case by simp
next
  case (Cons c cs)
  let ?acc' = "case fld c of None \<Rightarrow> acc
               | Some v \<Rightarrow> if v \<noteq> [] \<and> v \<notin> set acc then acc @ [v] else acc"
  from Cons.IH[of ?acc'] obtain rest where r: "collectValues fld ?acc' cs = ?acc' @ rest"
    by blast
  have "\<exists>more. ?acc' = acc @ more" by (cases "fld c") auto
  then obtain more where "?acc' = acc @ more" by blast
  with r show ?case by simp
qed

lemma firstValue_distinct: "distinct (firstValue v)"
  by (simp add: firstValue_def split: option.splits)

section \<open>Tombstones\<close>

text \<open>
  C7. The lookup of a contact's \<open>linkedId\<close> by \<^verbatim>\<open>findUnique\<close> does not exclude
  tombstoned rows, unlike every \<^verbatim>\<open>findMany\<close> of the algorithm. With a tombstoned
  primary 1 and its secondaries 2 and 3, the expansion from 2 reads 1, adds it to the
  set of ids and reaches 3 through it; no primary being left after the last read, the
  request creates a new primary 4.
\<close>

theorem tombstoned_primary_is_traversed:
  "1 \<in> expandLoop
          [row 1 (Some ''p@x.com'') None None ''primary'' 10 (Some 50),
           row 2 (Some ''s@x.com'') None (Some 1) ''secondary'' 20 None,
           row 3 (Some ''t@x.com'') None (Some 1) ''secondary'' 30 None]
          (rev [row 2 (Some ''s@x.com'') None (Some 1) ''secondary'' 20 None]) {} {}
   \<and> getAllRelatedContacts
         [row 1 (Some ''p@x.com'') None None ''primary'' 10 (Some 50),
          row 2 (Some ''s@x.com'') None (Some 1) ''secondary'' 20 None,
          row 3 (Some ''t@x.com'') None (Some 1) ''secondary'' 30 None]
         [row 2 (Some ''s@x.com'') None (Some 1) ''secondary'' 20 None]
       = [row 2 (Some ''s@x.com'') None (Some 1) ''secondary'' 20 None,
          row 3 (Some ''t@x.com'') None (Some 1) ''secondary'' 30 None]
   \<and> fst (identifyContact
         \<lparr>rows = [row 1 (Some ''p@x.com'') None None ''primary'' 10 (Some 50),
                  row 2 (Some ''s@x.com'') None (Some 1) ''secondary'' 20 None,
                  row 3 (Some ''t@x.com'') None (Some 1) ''secondary'' 30 None],
          nextId = 4, clock = 100, failAfter = None\<rparr>
         (Some ''s@x.com'') None)
       = Inr \<lparr>primaryContactId = 4, emails = [''s@x.com''], phoneNumbers = [],
              secondaryContactIds = []\<rparr>"
  by code_simp

section \<open>The writes of a merge\<close>

lemma map_contactId_demote [simp]: "map contactId (demote rs k n now) = map contactId rs"
  by (induction rs) (auto simp: demote_def)

lemma map_contactId_repoint [simp]: "map contactId (repoint rs k n) = map contactId rs"
  by (induction rs) (auto simp: repoint_def)

lemma contactId_demote [simp]: "contactId ` set (demote rs k n now) = contactId ` set rs"
  using map_contactId_demote[of rs k n now] by (metis set_map)

lemma contactId_repoint [simp]: "contactId ` set (repoint rs k n) = contactId ` set rs"
  using map_contactId_repoint[of rs k n] by (metis set_map)

lemma mergeLoop_run:
  assumes "contactId ` set others \<subseteq> contactId ` set (rows st)"
  shows "mergeLoop st oldestId others =
           (if writesDone st (2 * length others) = 2 * length others then Inr ()
            else Inl StoreFailure,
            st\<lparr>rows := foldl (applyWrite oldestId (clock st)) (rows st)
                          (take (writesDone st (2 * length others)) (mergeWrites others)),
               failAfter := map_option (\<lambda>k. k - 2 * length others) (failAfter st)\<rparr>)"
  using assms
proof (induction others arbitrary: st)
  case Nil
  show ?case by (simp add: writesDone_def mergeWrites_def map_option.identity split: option.splits)
next
  case (Cons p ps)
  have ex: "\<exists>r \<in> set (rows st). contactId r = contactId p"
    using Cons.prems by auto
  consider (never) "failAfter st = None" | (zero) "failAfter st = Some 0"
    | (one) "failAfter st = Some 1" | (more) k where "failAfter st = Some (Suc (Suc k))"
    by (metis One_nat_def not0_implies_Suc option.exhaust)
  then show ?case
  proof cases
    case zero
    then show ?thesis by (simp add: db_update_def writesDone_def)
  next
    case one
    with ex show ?thesis
      by (simp add: db_update_def db_updateMany_def writesDone_def spend_def mergeWrites_def)
  next
    case never
    let ?st2 = "st\<lparr>rows := repoint (demote (rows st) (contactId p) oldestId (clock st))
                              (contactId p) oldestId,
                    failAfter := None\<rparr>"
    have sub: "contactId ` set ps \<subseteq> contactId ` set (rows ?st2)"
      using Cons.prems by auto
    from never ex have step: "mergeLoop st oldestId (p # ps) = mergeLoop ?st2 oldestId ps"
      by (simp add: db_update_def db_updateMany_def spend_def)
    show ?thesis
      unfolding step Cons.IH[OF sub] using never
      by (simp add: writesDone_def mergeWrites_def)
  next
    case more
    let ?st2 = "st\<lparr>rows := repoint (demote (rows st) (contactId p) oldestId (clock st))
                              (contactId p) oldestId,
                    failAfter := Some k\<rparr>"
    have sub: "contactId ` set ps \<subseteq> contactId ` set (rows ?st2)"
      using Cons.prems by auto
    from more ex have step: "mergeLoop st oldestId (p # ps) = mergeLoop ?st2 oldestId ps"
      by (simp add: db_update_def db_updateMany_def spend_def)
    show ?thesis
      unfolding step Cons.IH[OF sub] using more
      by (auto simp add: writesDone_def mergeWrites_def min_def)
  qed
qed

text \<open>
  C2, as stated, fails: the store failing at the second write of a merge, the request
  returns the failure and the demotion of primary 2 stays committed, while its dependent
  3 still references it. A later request for the email of 3 reads this state: its family
  does not contain 3, and a second contact with that email is created.
\<close>

theorem merge_failure_leaves_demotion:
  "identifyContact
     \<lparr>rows = [row 1 (Some ''a@x.com'') (Some ''111'') None ''primary'' 10 None,
              row 2 (Some ''b@x.com'') (Some ''222'') None ''primary'' 20 None,
              row 3 (Some ''c@x.com'') (Some ''222'') (Some 2) ''secondary'' 30 None],
      nextId = 4, clock = 100, failAfter = Some 1\<rparr>
     (Some ''a@x.com'') (Some ''222'')
   = (Inl StoreFailure,
      \<lparr>rows = [row 1 (Some ''a@x.com'') (Some ''111'') None ''primary'' 10 None,
               \<lparr>contactId = 2, phoneNumber = Some ''222'', email = Some ''b@x.com'',
                linkedId = Some 1, linkPrecedence = ''secondary'', createdAt = 20,
                updatedAt = 100, deletedAt = None\<rparr>,
               row 3 (Some ''c@x.com'') (Some ''222'') (Some 2) ''secondary'' 30 None],
       nextId = 4, clock = 100, failAfter = Some 0\<rparr>)
   \<and> fst (identifyContact
       \<lparr>rows = [row 1 (Some ''a@x.com'') (Some ''111'') None ''primary'' 10 None,
                \<lparr>contactId = 2, phoneNumber = Some ''222'', email = Some ''b@x.com'',
                 linkedId = Some 1, linkPrecedence = ''secondary'', createdAt = 20,
                 updatedAt = 100, deletedAt = None\<rparr>,
                row 3 (Some ''c@x.com'') (Some ''222'') (Some 2) ''secondary'' 30 None],
        nextId = 4, clock = 200, failAfter = None\<rparr>
       (Some ''c@x.com'') None)
     = Inr \<lparr>primaryContactId = 1, emails = [''a@x.com'', ''b@x.com'', ''c@x.com''],
            phoneNumbers = [''111'', ''222''], secondaryContactIds = [2, 4]\<rparr>"
  by code_simp

text \<open>
  C2, amended. The merge is not atomic: it opens no transaction, and each of its writes
  is committed on its own. A merge during which the store fails at write \<open>k + 1\<close>
  returns the store's failure unchanged, without a retry, and leaves the first \<open>k\<close>
  writes of the loop committed; only when no write fails does the loop apply all of its
  demotions and repointings.
\<close>

theorem merge_commits_each_write:
  assumes "oldestOf primaries = Inr oldestPrimary"
    and "others = filter (\<lambda>p. contactId p \<noteq> contactId oldestPrimary) primaries"
    and "contactId ` set primaries \<subseteq> contactId ` set (rows st)"
  shows "(\<forall>k. failAfter st = Some k \<and> k < 2 * length others \<longrightarrow>
            mergePrimaries st primaries allContacts email' phoneNumber'
              = (Inl StoreFailure,
                 st\<lparr>rows := foldl (applyWrite (contactId oldestPrimary) (clock st)) (rows st)
                               (take k (mergeWrites others)),
                    failAfter := Some 0\<rparr>))
       \<and> (failAfter st = None \<longrightarrow>
            mergeLoop st (contactId oldestPrimary) others
              = (Inr (),
                 st\<lparr>rows := foldl (applyWrite (contactId oldestPrimary) (clock st)) (rows st)
                               (mergeWrites others)\<rparr>))"
proof -
  have sub: "contactId ` set others \<subseteq> contactId ` set (rows st)"
    using assms(2,3) by auto
  note run = mergeLoop_run[OF sub, of "contactId oldestPrimary"]
  have len: "length (mergeWrites others) = 2 * length others"
    by (induction others) (simp_all add: mergeWrites_def)
  show ?thesis
  proof (intro conjI allI impI)
    fix k
    assume k: "failAfter st = Some k \<and> k < 2 * length others"
    then have "mergeLoop st (contactId oldestPrimary) others
        = (Inl StoreFailure,
           st\<lparr>rows := foldl (applyWrite (contactId oldestPrimary) (clock st)) (rows st)
                         (take k (mergeWrites others)),
              failAfter := Some 0\<rparr>)"
      unfolding run by (simp add: writesDone_def)
    then show "mergePrimaries st primaries allContacts email' phoneNumber'
              = (Inl StoreFailure,
                 st\<lparr>rows := foldl (applyWrite (contactId oldestPrimary) (clock st)) (rows st)
                               (take k (mergeWrites others)),
                    failAfter := Some 0\<rparr>)"
      using assms(1,2) by (simp add: mergePrimaries_def)
  next
    assume "failAfter st = None"
    then show "mergeLoop st (contactId oldestPrimary) others
              = (Inr (),
                 st\<lparr>rows := foldl (applyWrite (contactId oldestPrimary) (clock st)) (rows st)
                               (mergeWrites others)\<rparr>)"
      unfolding run by (simp add: writesDone_def len)
  qed
qed

theorem merge_commits_each_write_witness:
  "oldestOf [row 1 (Some ''a@x.com'') (Some ''111'') None ''primary'' 10 None,
             row 2 (Some ''b@x.com'') (Some ''222'') None ''primary'' 20 None]
     = Inr (row 1 (Some ''a@x.com'') (Some ''111'') None ''primary'' 10 None)
   \<and> mergePrimaries
       \<lparr>rows = [row 1 (Some ''a@x.com'') (Some ''111'') None ''primary'' 10 None,
                row 2 (Some ''b@x.com'') (Some ''222'') None ''primary'' 20 None,
                row 3 (Some ''c@x.com'') (Some ''222'') (Some 2) ''secondary'' 30 None],
        nextId = 4, clock = 100, failAfter = Some 1\<rparr>
       [row 1 (Some ''a@x.com'') (Some ''111'') None ''primary'' 10 None,
        row 2 (Some ''b@x.com'') (Some ''222'') None ''primary'' 20 None]
       [] (Some ''a@x.com'') (Some ''222'')
     = (Inl StoreFailure,
        \<lparr>rows = [row 1 (Some ''a@x.com'') (Some ''111'') None ''primary'' 10 None,
                 \<lparr>contactId = 2, phoneNumber = Some ''222'', email = Some ''b@x.com'',
                  linkedId = Some 1, linkPrecedence = ''secondary'', createdAt = 20,
                  updatedAt = 100, deletedAt = None\<rparr>,
                 row 3 (Some ''c@x.com'') (Some ''222'') (Some 2) ''secondary'' 30 None],
         nextId = 4, clock = 100, failAfter = Some 0\<rparr>)"
proof -
  let ?A = "row 1 (Some ''a@x.com'') (Some ''111'') None ''primary'' 10 None"
  let ?B = "row 2 (Some ''b@x.com'') (Some ''222'') None ''primary'' 20 None"
  let ?C = "row 3 (Some ''c@x.com'') (Some ''222'') (Some 2) ''secondary'' 30 None"
  let ?st = "\<lparr>rows = [?A, ?B, ?C], nextId = 4, clock = 100, failAfter = Some 1\<rparr>"
  have h1: "oldestOf [?A, ?B] = Inr ?A"
    by (simp add: oldestOf_def row_def)
  have h2: "[?B] = filter (\<lambda>p. contactId p \<noteq> contactId ?A) [?A, ?B]"
    by (simp add: row_def)
  have h3: "contactId ` set [?A, ?B] \<subseteq> contactId ` set (rows ?st)"
    by simp
  have k: "failAfter ?st = Some 1 \<and> 1 < 2 * length [?B]"
    by simp
  from merge_commits_each_write[OF h1 h2 h3, of "[]" "Some ''a@x.com''" "Some ''222''"] k
  have "mergePrimaries ?st [?A, ?B] [] (Some ''a@x.com'') (Some ''222'')
          = (Inl StoreFailure,
             ?st\<lparr>rows := foldl (applyWrite (contactId ?A) (clock ?st)) (rows ?st)
                            (take 1 (mergeWrites [?B])),
                 failAfter := Some 0\<rparr>)"
    by blast
  then have "mergePrimaries ?st [?A, ?B] [] (Some ''a@x.com'') (Some ''222'')
     = (Inl StoreFailure,
        \<lparr>rows = [?A,
                 \<lparr>contactId = 2, phoneNumber = Some ''222'', email = Some ''b@x.com'',
                  linkedId = Some 1, linkPrecedence = ''secondary'', createdAt = 20,
                  updatedAt = 100, deletedAt = None\<rparr>,
                 ?C],
         nextId = 4, clock = 100, failAfter = Some 0\<rparr>)"
    by (simp add: mergeWrites_def demote_def row_def)
  with h1 show ?thesis by simp
qed

section \<open>The graph expansion\<close>

lemma set_visit:
  "set (visit rs c processed toProcess)
     = {t \<in> linkTargets rs c. contactId t \<notin> processed} \<union> set toProcess"
  by (auto simp: visit_def linkTargets_def findMany_def split: option.splits if_splits)

lemma linkTargets_rows: "linkTargets rs c \<subseteq> set rs"
  by (auto simp: linkTargets_def findUnique_def find_Some_iff split: option.splits if_splits)

lemma expandLoop_mono: "contactIds \<subseteq> expandLoop rs toProcess processed contactIds"
  by (induction rs toProcess processed contactIds rule: expandLoop.induct) auto

text \<open>Whatever the loop adds lies in any set of contacts that holds the stack and is closed
  under the links the loop follows.\<close>

lemma expandLoop_sound:
  assumes "\<forall>c \<in> Q. linkTargets rs c \<subseteq> Q" and "set toProcess \<subseteq> Q"
  shows "expandLoop rs toProcess processed contactIds \<subseteq> contactIds \<union> contactId ` Q"
  using assms
proof (induction rs toProcess processed contactIds rule: expandLoop.induct)
  case (1 rs processed contactIds)
  show ?case by simp
next
  case (2 rs c toProcess processed contactIds)
  show ?case
  proof (cases "contactId c \<in> processed")
    case True
    with 2 show ?thesis by simp
  next
    case False
    have cQ: "c \<in> Q" using "2.prems" by simp
    have "linkTargets rs c \<subseteq> Q" using "2.prems"(1) cQ by blast
    then have "set (visit rs c (insert (contactId c) processed) toProcess) \<subseteq> Q"
      using "2.prems"(2) by (auto simp: set_visit)
    from "2.IH"(2)[OF False "2.prems"(1) this] False cQ show ?thesis by auto
  qed
qed

text \<open>The set of ids the loop returns holds the stack's ids and is closed under the links.\<close>

lemma expandLoop_closed:
  assumes "distinct (map contactId rs)"
    and "set toProcess \<subseteq> set rs"
    and "\<forall>r \<in> set rs. contactId r \<in> processed \<longrightarrow>
           contactId ` linkTargets rs r \<subseteq> processed \<union> contactId ` set toProcess"
    and "contactIds = processed"
  shows "contactId ` set toProcess \<subseteq> expandLoop rs toProcess processed contactIds
       \<and> (\<forall>r \<in> set rs. contactId r \<in> expandLoop rs toProcess processed contactIds \<longrightarrow>
             contactId ` linkTargets rs r \<subseteq> expandLoop rs toProcess processed contactIds)"
  using assms
proof (induction rs toProcess processed contactIds rule: expandLoop.induct)
  case (1 rs processed contactIds)
  then show ?case by auto
next
  case (2 rs c toProcess processed contactIds)
  note eq = \<open>contactIds = processed\<close>
  show ?case
  proof (cases "contactId c \<in> processed")
    case True
    have "processed \<union> contactId ` set (c # toProcess) = processed \<union> contactId ` set toProcess"
      using True by auto
    with "2.prems"(3)
    have "\<forall>r \<in> set rs. contactId r \<in> processed \<longrightarrow>
           contactId ` linkTargets rs r \<subseteq> processed \<union> contactId ` set toProcess"
      by simp
    with "2.IH"(1)[OF True "2.prems"(1)] "2.prems"(2) eq
    have IH: "contactId ` set toProcess \<subseteq> expandLoop rs toProcess processed contactIds
       \<and> (\<forall>r \<in> set rs. contactId r \<in> expandLoop rs toProcess processed contactIds \<longrightarrow>
             contactId ` linkTargets rs r \<subseteq> expandLoop rs toProcess processed contactIds)"
      by simp
    have "contactId c \<in> expandLoop rs toProcess processed contactIds"
      using True eq expandLoop_mono by blast
    with IH True show ?thesis by simp
  next
    case False
    let ?pr = "insert (contactId c) processed"
    let ?ids = "insert (contactId c) contactIds"
    let ?st = "visit rs c ?pr toProcess"
    have c: "c \<in> set rs" using "2.prems"(2) by simp
    have sub: "set ?st \<subseteq> set rs"
      using "2.prems"(2) linkTargets_rows[of rs c] by (auto simp: set_visit)
    have uniq: "\<And>r. r \<in> set rs \<Longrightarrow> contactId r = contactId c \<Longrightarrow> r = c"
      using "2.prems"(1) c by (meson distinct_map inj_onD)
    have inv: "\<forall>r \<in> set rs. contactId r \<in> ?pr \<longrightarrow>
           contactId ` linkTargets rs r \<subseteq> ?pr \<union> contactId ` set ?st"
    proof (intro ballI impI)
      fix r assume r: "r \<in> set rs" "contactId r \<in> ?pr"
      show "contactId ` linkTargets rs r \<subseteq> ?pr \<union> contactId ` set ?st"
      proof (cases "contactId r = contactId c")
        case True
        then have "r = c" using uniq r(1) by simp
        then show ?thesis by (auto simp: set_visit)
      next
        case False
        with r have "contactId ` linkTargets rs r \<subseteq> processed \<union> contactId ` set (c # toProcess)"
          using "2.prems"(3) by simp
        then show ?thesis by (auto simp: set_visit)
      qed
    qed
    have eq': "?ids = ?pr" using eq by simp
    from "2.IH"(2)[OF False "2.prems"(1) sub inv eq']
    have IH: "contactId ` set ?st \<subseteq> expandLoop rs ?st ?pr ?ids
       \<and> (\<forall>r \<in> set rs. contactId r \<in> expandLoop rs ?st ?pr ?ids \<longrightarrow>
             contactId ` linkTargets rs r \<subseteq> expandLoop rs ?st ?pr ?ids)" .
    have "contactId c \<in> expandLoop rs ?st ?pr ?ids"
      using expandLoop_mono[of ?ids rs ?st ?pr] by blast
    moreover have "contactId ` set toProcess \<subseteq> expandLoop rs ?st ?pr ?ids"
      using IH by (auto simp: set_visit)
    ultimately show ?thesis using IH False by simp
  qed
qed

lemma findUnique_row:
  "distinct (map contactId rs) \<Longrightarrow> r \<in> set rs \<Longrightarrow> findUnique rs (contactId r) = Some r"
proof (induction rs)
  case Nil
  then show ?case by simp
next
  case (Cons a rs)
  then show ?case by (auto simp: findUnique_def image_iff)
qed

lemma linked_target:
  assumes "distinct (map contactId rs)" and "0 \<notin> contactId ` set rs" and "linked rs c c'"
  shows "c' \<in> linkTargets rs c"
proof -
  from assms(3) have c': "c' \<in> set rs" "deletedAt c' = None" by (auto simp: linked_def)
  from assms(3) consider
      (up) "linkPrecedence c = ''secondary''" "linkedId c = Some (contactId c')"
    | (down) "linkPrecedence c = ''primary''" "linkedId c' = Some (contactId c)"
    by (auto simp: linked_def)
  then show ?thesis
  proof cases
    case up
    have "contactId c' \<noteq> 0" using assms(2) c'(1) by (metis imageI)
    with up findUnique_row[OF assms(1) c'(1)] show ?thesis
      by (simp add: linkTargets_def)
  next
    case down
    with c' show ?thesis by (simp add: linkTargets_def)
  qed
qed

lemma set_getAllRelatedContacts:
  "set (getAllRelatedContacts rs seeds) =
     (if seeds = [] then {}
      else {r \<in> set rs. contactId r \<in> expandLoop rs (rev seeds) {} {} \<and> deletedAt r = None})"
  by (auto simp: getAllRelatedContacts_def findManyAsc_def)

lemma follows_reach_rows:
  assumes "s \<in> set rs" and "(follows rs)\<^sup>*\<^sup>* s c"
  shows "c \<in> set rs"
  using assms(2)
proof (induction rule: rtranclp_induct)
  case base
  show ?case by (rule assms(1))
next
  case (step y z)
  from step.hyps(2) linkTargets_rows[of rs y] show ?case by (auto simp: follows_def)
qed

lemma related_exact:
  assumes "distinct (map contactId rs)" and "set seeds \<subseteq> set rs"
  shows "set (getAllRelatedContacts rs seeds)
           = {c \<in> set rs. deletedAt c = None \<and> (\<exists>s \<in> set seeds. (follows rs)\<^sup>*\<^sup>* s c)}"
proof -
  let ?R = "expandLoop rs (rev seeds) {} {}"
  let ?Q = "{c. \<exists>s \<in> set seeds. (follows rs)\<^sup>*\<^sup>* s c}"
  have closed: "contactId ` set (rev seeds) \<subseteq> ?R
       \<and> (\<forall>r \<in> set rs. contactId r \<in> ?R \<longrightarrow> contactId ` linkTargets rs r \<subseteq> ?R)"
    using assms by (intro expandLoop_closed) auto
  have Qrows: "?Q \<subseteq> set rs" using follows_reach_rows assms(2) by blast
  have Qclosed: "\<forall>c \<in> ?Q. linkTargets rs c \<subseteq> ?Q"
  proof (intro ballI subsetI)
    fix c t assume "c \<in> ?Q" and t: "t \<in> linkTargets rs c"
    then obtain s where s: "s \<in> set seeds" "(follows rs)\<^sup>*\<^sup>* s c" by blast
    from t have "follows rs c t" by (simp add: follows_def)
    with s(2) have "(follows rs)\<^sup>*\<^sup>* s t"
      by (rule rtranclp.rtrancl_into_rtrancl[of "follows rs"])
    with s(1) show "t \<in> ?Q" by blast
  qed
  have seedsQ: "set (rev seeds) \<subseteq> ?Q" by auto
  have sound: "?R \<subseteq> contactId ` ?Q"
    using expandLoop_sound[OF Qclosed seedsQ, of "{}" "{}"] by simp
  have in_iff: "(contactId r \<in> ?R) = (r \<in> ?Q)" if r: "r \<in> set rs" for r
  proof
    assume "contactId r \<in> ?R"
    with sound have "contactId r \<in> contactId ` ?Q" by blast
    then obtain q where q: "q \<in> ?Q" "contactId q = contactId r" by (elim imageE) simp
    with Qrows have "q \<in> set rs" by blast
    with q(2) r assms(1) have "q = r" by (meson distinct_map inj_onD)
    with q(1) show "r \<in> ?Q" by simp
  next
    assume "r \<in> ?Q"
    then obtain s where s: "s \<in> set seeds" "(follows rs)\<^sup>*\<^sup>* s r" by blast
    from s(2) have "r \<in> set rs \<and> contactId r \<in> ?R"
    proof (induction rule: rtranclp_induct)
      case base
      from s(1) assms(2) closed show ?case by auto
    next
      case (step y z)
      then have "z \<in> linkTargets rs y" by (simp add: follows_def)
      moreover with linkTargets_rows[of rs y] have "z \<in> set rs" by blast
      ultimately show ?case using step.IH closed by blast
    qed
    then show "contactId r \<in> ?R" by simp
  qed
  show ?thesis
  proof (cases "seeds = []")
    case True
    then show ?thesis by (simp add: set_getAllRelatedContacts)
  next
    case False
    then show ?thesis using in_iff by (auto simp: set_getAllRelatedContacts)
  qed
qed

lemma follows_linked:
  assumes "distinct (map contactId rs)" and "0 \<notin> contactId ` set rs"
    and "linksWellFormed rs" and "c \<in> set rs"
  shows "follows rs c c' = linked rs c c'"
proof
  assume "linked rs c c'"
  with assms(1,2) show "follows rs c c'" unfolding follows_def by (rule linked_target)
next
  assume "follows rs c c'"
  then have t: "c' \<in> linkTargets rs c" by (simp add: follows_def)
  then have c': "c' \<in> set rs" using linkTargets_rows by blast
  from t consider
      (up) k where "linkedId c = Some k" "findUnique rs k = Some c'"
    | (down) "linkPrecedence c = ''primary''" "linkedId c' = Some (contactId c)"
        "deletedAt c' = None"
    by (auto simp: linkTargets_def split: option.splits if_splits)
  then show "linked rs c c'"
  proof cases
    case up
    then have "contactId c' = k" by (auto simp: findUnique_def find_Some_iff)
    with up(1) have "linkedId c = Some (contactId c')" by simp
    with assms(3,4) c' show ?thesis by (auto simp: linksWellFormed_def linked_def)
  next
    case down
    with c' show ?thesis by (simp add: linked_def)
  qed
qed

lemma reach_follows_linked:
  assumes "distinct (map contactId rs)" and "0 \<notin> contactId ` set rs"
    and "linksWellFormed rs" and "s \<in> set rs"
  shows "(follows rs)\<^sup>*\<^sup>* s c = (linked rs)\<^sup>*\<^sup>* s c"
proof
  assume "(follows rs)\<^sup>*\<^sup>* s c"
  then show "(linked rs)\<^sup>*\<^sup>* s c"
  proof (induction rule: rtranclp_induct)
    case base
    show ?case by simp
  next
    case (step y z)
    have "y \<in> set rs" using assms(4) step.hyps(1) by (rule follows_reach_rows)
    with step.hyps(2) have "linked rs y z" using follows_linked[OF assms(1-3)] by simp
    with step.IH show ?case by (rule rtranclp.rtrancl_into_rtrancl[of "linked rs"])
  qed
next
  assume "(linked rs)\<^sup>*\<^sup>* s c"
  then show "(follows rs)\<^sup>*\<^sup>* s c"
  proof (induction rule: rtranclp_induct)
    case base
    show ?case by simp
  next
    case (step y z)
    have "follows rs y z"
      unfolding follows_def using assms(1,2) step.hyps(2) by (rule linked_target)
    with step.IH show ?case by (rule rtranclp.rtrancl_into_rtrancl[of "follows rs"])
  qed
qed

text \<open>
  C9. The loop of the expansion terminates from every table, stack and set of processed
  ids: its recursion is well-founded, whatever the links look like. For a table with
  distinct ids and seeds taken from it, the expansion returns exactly the contacts, not
  tombstoned, that are reachable from a seed along the lookups of the loop, and nothing
  else. With non-zero ids, this includes every contact, not tombstoned, reachable by
  the link relation (from a secondary to the contact its \<open>linkedId\<close> names, from a
  primary to the contacts whose \<open>linkedId\<close> names it); and where every \<open>linkedId\<close>
  sits on a secondary and names no tombstoned row, the result is exactly the set of
  those contacts, cyclic links included.
\<close>

theorem expansion_terminates_and_is_complete:
  "(\<forall>toProcess processed contactIds. expandLoop_dom (rs, toProcess, processed, contactIds))
   \<and> (distinct (map contactId rs) \<and> set seeds \<subseteq> set rs \<longrightarrow>
        set (getAllRelatedContacts rs seeds)
          = {c \<in> set rs. deletedAt c = None
                \<and> (\<exists>s \<in> set seeds. (follows rs)\<^sup>*\<^sup>* s c)})
   \<and> (distinct (map contactId rs) \<and> 0 \<notin> contactId ` set rs \<and> set seeds \<subseteq> set rs \<longrightarrow>
        (\<forall>s c. s \<in> set seeds \<and> (linked rs)\<^sup>*\<^sup>* s c \<and> deletedAt c = None \<longrightarrow>
               c \<in> set (getAllRelatedContacts rs seeds)))
   \<and> (distinct (map contactId rs) \<and> 0 \<notin> contactId ` set rs \<and> set seeds \<subseteq> set rs
        \<and> linksWellFormed rs \<longrightarrow>
        set (getAllRelatedContacts rs seeds)
          = {c. deletedAt c = None \<and> (\<exists>s \<in> set seeds. (linked rs)\<^sup>*\<^sup>* s c)})"
proof (intro conjI allI impI)
  fix toProcess processed contactIds
  show "expandLoop_dom (rs, toProcess, processed, contactIds)"
    using expandLoop_total by blast
next
  assume "distinct (map contactId rs) \<and> set seeds \<subseteq> set rs"
  then show "set (getAllRelatedContacts rs seeds)
          = {c \<in> set rs. deletedAt c = None
                \<and> (\<exists>s \<in> set seeds. (follows rs)\<^sup>*\<^sup>* s c)}"
    by (intro related_exact) simp_all
next
  fix s c
  assume wf: "distinct (map contactId rs) \<and> 0 \<notin> contactId ` set rs \<and> set seeds \<subseteq> set rs"
    and sc: "s \<in> set seeds \<and> (linked rs)\<^sup>*\<^sup>* s c \<and> deletedAt c = None"
  from sc have "(linked rs)\<^sup>*\<^sup>* s c" by simp
  then have f: "(follows rs)\<^sup>*\<^sup>* s c"
  proof (induction rule: rtranclp_induct)
    case base
    show ?case by simp
  next
    case (step y z)
    have "follows rs y z"
      unfolding follows_def using wf step.hyps(2) by (intro linked_target) simp_all
    with step.IH show ?case by (rule rtranclp.rtrancl_into_rtrancl[of "follows rs"])
  qed
  have "s \<in> set rs" using wf sc by blast
  then have "c \<in> set rs" using f by (rule follows_reach_rows)
  with sc f show "c \<in> set (getAllRelatedContacts rs seeds)"
    unfolding related_exact[OF wf[THEN conjunct1] wf[THEN conjunct2, THEN conjunct2]] by blast
next
  assume h: "distinct (map contactId rs) \<and> 0 \<notin> contactId ` set rs \<and> set seeds \<subseteq> set rs
        \<and> linksWellFormed rs"
  then have d: "distinct (map contactId rs)" and z: "0 \<notin> contactId ` set rs"
    and sub: "set seeds \<subseteq> set rs" and w: "linksWellFormed rs"
    by simp_all
  have eq: "(follows rs)\<^sup>*\<^sup>* s c = (linked rs)\<^sup>*\<^sup>* s c" if "s \<in> set seeds" for s c
    using reach_follows_linked[OF d z w] that sub by blast
  have rows: "c \<in> set rs" if "s \<in> set seeds" "(follows rs)\<^sup>*\<^sup>* s c" for s c
    using follows_reach_rows[of s rs c] that sub by blast
  show "set (getAllRelatedContacts rs seeds)
          = {c. deletedAt c = None \<and> (\<exists>s \<in> set seeds. (linked rs)\<^sup>*\<^sup>* s c)}"
    unfolding related_exact[OF d sub] using eq rows by blast
qed

theorem expansion_terminates_and_is_complete_witness:
  "distinct (map contactId
      [row 1 (Some ''a@x.com'') None None ''primary'' 10 None,
       row 2 (Some ''b@x.com'') None (Some 1) ''secondary'' 20 None,
       row 3 (Some ''c@x.com'') None (Some 1) ''secondary'' 30 None,
       row 4 (Some ''d@x.com'') None None ''primary'' 40 None])
   \<and> 0 \<notin> contactId ` set
      [row 1 (Some ''a@x.com'') None None ''primary'' 10 None,
       row 2 (Some ''b@x.com'') None (Some 1) ''secondary'' 20 None,
       row 3 (Some ''c@x.com'') None (Some 1) ''secondary'' 30 None,
       row 4 (Some ''d@x.com'') None None ''primary'' 40 None]
   \<and> linksWellFormed
      [row 1 (Some ''a@x.com'') None None ''primary'' 10 None,
       row 2 (Some ''b@x.com'') None (Some 1) ''secondary'' 20 None,
       row 3 (Some ''c@x.com'') None (Some 1) ''secondary'' 30 None,
       row 4 (Some ''d@x.com'') None None ''primary'' 40 None]
   \<and> (linked
        [row 1 (Some ''a@x.com'') None None ''primary'' 10 None,
         row 2 (Some ''b@x.com'') None (Some 1) ''secondary'' 20 None,
         row 3 (Some ''c@x.com'') None (Some 1) ''secondary'' 30 None,
         row 4 (Some ''d@x.com'') None None ''primary'' 40 None])\<^sup>*\<^sup>*
        (row 2 (Some ''b@x.com'') None (Some 1) ''secondary'' 20 None)
        (row 3 (Some ''c@x.com'') None (Some 1) ''secondary'' 30 None)
   \<and> row 3 (Some ''c@x.com'') None (Some 1) ''secondary'' 30 None
       \<in> set (getAllRelatedContacts
           [row 1 (Some ''a@x.com'') None None ''primary'' 10 None,
            row 2 (Some ''b@x.com'') None (Some 1) ''secondary'' 20 None,
            row 3 (Some ''c@x.com'') None (Some 1) ''secondary'' 30 None,
            row 4 (Some ''d@x.com'') None None ''primary'' 40 None]
           [row 2 (Some ''b@x.com'') None (Some 1) ''secondary'' 20 None])
   \<and> set (getAllRelatedContacts
           [row 1 (Some ''a@x.com'') None None ''primary'' 10 None,
            row 2 (Some ''b@x.com'') None (Some 1) ''secondary'' 20 None,
            row 3 (Some ''c@x.com'') None (Some 1) ''secondary'' 30 None,
            row 4 (Some ''d@x.com'') None None ''primary'' 40 None]
           [row 2 (Some ''b@x.com'') None (Some 1) ''secondary'' 20 None])
       = {c. deletedAt c = None
            \<and> (\<exists>s \<in> set [row 2 (Some ''b@x.com'') None (Some 1) ''secondary'' 20 None].
                 (linked
                   [row 1 (Some ''a@x.com'') None None ''primary'' 10 None,
                    row 2 (Some ''b@x.com'') None (Some 1) ''secondary'' 20 None,
                    row 3 (Some ''c@x.com'') None (Some 1) ''secondary'' 30 None,
                    row 4 (Some ''d@x.com'') None None ''primary'' 40 None])\<^sup>*\<^sup>* s c)}
   \<and> getAllRelatedContacts
           [row 1 (Some ''a@x.com'') None None ''primary'' 10 None,
            row 2 (Some ''b@x.com'') None (Some 1) ''secondary'' 20 None,
            row 3 (Some ''c@x.com'') None (Some 1) ''secondary'' 30 None,
            row 4 (Some ''d@x.com'') None None ''primary'' 40 None]
           [row 2 (Some ''b@x.com'') None (Some 1) ''secondary'' 20 None]
       = [row 1 (Some ''a@x.com'') None None ''primary'' 10 None,
          row 2 (Some ''b@x.com'') None (Some 1) ''secondary'' 20 None,
          row 3 (Some ''c@x.com'') None (Some 1) ''secondary'' 30 None]"
proof -
  let ?r1 = "row 1 (Some ''a@x.com'') None None ''primary'' 10 None"
  let ?r2 = "row 2 (Some ''b@x.com'') None (Some 1) ''secondary'' 20 None"
  let ?r3 = "row 3 (Some ''c@x.com'') None (Some 1) ''secondary'' 30 None"
  let ?r4 = "row 4 (Some ''d@x.com'') None None ''primary'' 40 None"
  let ?rs = "[?r1, ?r2, ?r3, ?r4]"
  have d: "distinct (map contactId ?rs)" by (simp add: row_def)
  have z: "0 \<notin> contactId ` set ?rs" by (simp add: row_def)
  have s: "set [?r2] \<subseteq> set ?rs" by simp
  have w: "linksWellFormed ?rs" by (simp add: linksWellFormed_def row_def)
  have l1: "linked ?rs ?r2 ?r1" by (simp add: linked_def row_def)
  have l2: "linked ?rs ?r1 ?r3" by (simp add: linked_def row_def)
  have "(linked ?rs)\<^sup>*\<^sup>* ?r2 ?r1"
    using l1 by (rule r_into_rtranclp[of "linked ?rs"])
  then have reach: "(linked ?rs)\<^sup>*\<^sup>* ?r2 ?r3"
    using l2 by (rule rtranclp.rtrancl_into_rtrancl[of "linked ?rs"])
  have del: "deletedAt ?r3 = None" by (simp add: row_def)
  note inst = expansion_terminates_and_is_complete[of ?rs "[?r2]"]
  have pre: "distinct (map contactId ?rs) \<and> 0 \<notin> contactId ` set ?rs \<and> set [?r2] \<subseteq> set ?rs"
    using d z s by (intro conjI)
  have sc: "?r2 \<in> set [?r2] \<and> (linked ?rs)\<^sup>*\<^sup>* ?r2 ?r3 \<and> deletedAt ?r3 = None"
    using reach del by (intro conjI) simp
  have mem: "?r3 \<in> set (getAllRelatedContacts ?rs [?r2])"
    by (rule inst[THEN conjunct2, THEN conjunct2, THEN conjunct1, rule_format, OF pre sc])
  have pre': "distinct (map contactId ?rs) \<and> 0 \<notin> contactId ` set ?rs \<and> set [?r2] \<subseteq> set ?rs
                \<and> linksWellFormed ?rs"
    using d z s w by (intro conjI)
  have exact: "set (getAllRelatedContacts ?rs [?r2])
       = {c. deletedAt c = None
            \<and> (\<exists>s \<in> set [?r2]. (linked ?rs)\<^sup>*\<^sup>* s c)}"
    by (rule inst[THEN conjunct2, THEN conjunct2, THEN conjunct2, THEN mp, OF pre'])
  have run: "getAllRelatedContacts ?rs [?r2] = [?r1, ?r2, ?r3]" by code_simp
  from d z w reach mem exact run show ?thesis by (intro conjI)
qed

section \<open>The invariants of the data model\<close>

lemma merge_step_map:
  "k \<noteq> oldestId \<Longrightarrow>
   repoint (demote rs k oldestId now) k oldestId = map (mergeRow k oldestId now) rs"
  by (induction rs) (auto simp: repoint_def demote_def mergeRow_def)

lemma mergeRow_id [simp]: "contactId (mergeRow k oldestId now r) = contactId r"
  by (simp add: mergeRow_def)

lemma mergeRow_deletedAt [simp]: "deletedAt (mergeRow k oldestId now r) = deletedAt r"
  by (simp add: mergeRow_def)

lemma mergeRow_primary:
  "linkPrecedence r = ''primary'' \<Longrightarrow> linkedId r = None \<Longrightarrow> contactId r \<noteq> k \<Longrightarrow>
   mergeRow k oldestId now r = r"
  by (simp add: mergeRow_def)

lemma flat_unique:
  "flat rs \<Longrightarrow> a \<in> set rs \<Longrightarrow> b \<in> set rs \<Longrightarrow> contactId a = contactId b \<Longrightarrow> a = b"
  by (metis distinct_map flat_def inj_onD)

lemma flat_merge_step:
  assumes "flat rs"
    and "oldest \<in> set rs" "linkPrecedence oldest = ''primary''" "deletedAt oldest = None"
    and "k \<noteq> contactId oldest"
  shows "flat (map (mergeRow k (contactId oldest) now) rs)"
proof -
  let ?g = "mergeRow k (contactId oldest) now"
  have old: "?g oldest = oldest"
    using assms by (auto simp: flat_def intro!: mergeRow_primary)
  have d: "distinct (map contactId (map ?g rs))"
    using assms(1) by (simp add: flat_def comp_def)
  have each: "contactId r' \<noteq> 0
          \<and> (linkPrecedence r' = ''primary'' \<or> linkPrecedence r' = ''secondary'')
          \<and> (linkPrecedence r' = ''primary'' \<longrightarrow> linkedId r' = None)
          \<and> (linkPrecedence r' = ''secondary'' \<longrightarrow>
                (\<exists>p \<in> set (map ?g rs). linkedId r' = Some (contactId p)
                   \<and> linkPrecedence p = ''primary'' \<and> deletedAt p = None))"
    if "r' \<in> set (map ?g rs)" for r'
  proof -
    from that obtain r where r: "r \<in> set rs" "r' = ?g r" by auto
    from r(1) assms(1) have rp:
      "contactId r \<noteq> 0"
      "linkPrecedence r = ''primary'' \<or> linkPrecedence r = ''secondary''"
      "linkPrecedence r = ''primary'' \<longrightarrow> linkedId r = None"
      "linkPrecedence r = ''secondary'' \<longrightarrow>
                (\<exists>p \<in> set rs. linkedId r = Some (contactId p)
                   \<and> linkPrecedence p = ''primary'' \<and> deletedAt p = None)"
      by (auto simp: flat_def)
    have oldIn: "oldest \<in> set (map ?g rs)"
      using assms(2) old by (metis image_eqI set_map)
    show ?thesis
    proof (cases "contactId r = k \<or> linkedId r = Some k")
      case True
      then have "linkedId r' = Some (contactId oldest)" "linkPrecedence r' = ''secondary''"
        using r(2) rp by (auto simp: mergeRow_def)
      moreover have "\<exists>p \<in> set (map ?g rs). Some (contactId oldest) = Some (contactId p)
                   \<and> linkPrecedence p = ''primary'' \<and> deletedAt p = None"
        using oldIn assms(3,4) by blast
      moreover have "contactId r' \<noteq> 0" using rp(1) r(2) by simp
      ultimately show ?thesis by simp
    next
      case False
      then have same: "r' = r" using r(2) by (simp add: mergeRow_def)
      have "\<exists>p \<in> set (map ?g rs). linkedId r = Some (contactId p)
                   \<and> linkPrecedence p = ''primary'' \<and> deletedAt p = None"
        if "linkPrecedence r = ''secondary''"
      proof -
        from that rp(4) obtain p where p: "p \<in> set rs" "linkedId r = Some (contactId p)"
          "linkPrecedence p = ''primary''" "deletedAt p = None" by blast
        have "linkedId p = None" using p(1,3) assms(1) by (auto simp: flat_def)
        moreover have "contactId p \<noteq> k" using False p(2) by auto
        ultimately have "?g p = p" using p(3) by (simp add: mergeRow_primary)
        then have "p \<in> set (map ?g rs)" using p(1) by (metis image_eqI set_map)
        with p show ?thesis by blast
      qed
      with rp same show ?thesis by simp
    qed
  qed
  from d each show ?thesis unfolding flat_def by blast
qed

lemma storeInv_iff: "storeInv st = (tableOk st \<and> linksResolve (rows st))"
  unfolding storeInv_def flat_def tableOk_def linksResolve_def by auto

lemma flat_depthOne:
  assumes "flat rs"
  shows "depthOne rs"
  unfolding depthOne_def
proof (intro ballI impI)
  fix r s
  assume r: "r \<in> set rs" and s: "s \<in> set rs" and l: "linkedId r = Some (contactId s)"
  from r l assms have "linkPrecedence r = ''secondary''" by (auto simp: flat_def)
  with r assms obtain p where p: "p \<in> set rs" "linkedId r = Some (contactId p)"
      "linkPrecedence p = ''primary''"
    unfolding flat_def by blast
  with l have "contactId p = contactId s" by simp
  with p(1) s assms have "p = s" by (rule_tac flat_unique)
  with p(3) show "linkPrecedence s \<noteq> ''secondary''" by simp
qed

lemma flat_link_root:
  assumes "flat rs" "a \<in> set rs" "b \<in> set rs" "linkedId a = Some (contactId b)"
  shows "rootId a = rootId b"
proof -
  have "linkPrecedence b \<noteq> ''secondary''"
    using flat_depthOne[OF assms(1)] assms(2-4) unfolding depthOne_def by blast
  then have "linkedId b = None" using assms(1,3) by (auto simp: flat_def)
  with assms(4) show ?thesis by (simp add: rootId_def)
qed

lemma flat_component_root:
  assumes "flat rs" "c \<in> set rs" "(adjacent rs)\<^sup>*\<^sup>* c d"
  shows "d \<in> set rs \<and> rootId d = rootId c"
  using assms(3)
proof (induction rule: rtranclp_induct)
  case base
  show ?case using assms(2) by simp
next
  case (step y z)
  from step.hyps(2) have yz: "y \<in> set rs" "z \<in> set rs"
      "linkedId y = Some (contactId z) \<or> linkedId z = Some (contactId y)"
    by (auto simp: adjacent_def)
  then have "rootId y = rootId z"
    using flat_link_root[OF assms(1)] by metis
  with step.IH yz(2) show ?case by simp
qed

lemma flat_onePrimaryPerComponent:
  assumes "flat rs"
  shows "onePrimaryPerComponent rs"
  unfolding onePrimaryPerComponent_def
proof (intro ballI)
  fix c assume c: "c \<in> set rs"
  have ex: "\<exists>p. (adjacent rs)\<^sup>*\<^sup>* c p \<and> linkPrecedence p = ''primary''"
  proof (cases "linkPrecedence c = ''primary''")
    case True
    then show ?thesis by blast
  next
    case False
    with c assms obtain p where p: "p \<in> set rs" "linkedId c = Some (contactId p)"
      "linkPrecedence p = ''primary''"
      unfolding flat_def by blast
    then have "adjacent rs c p" using c by (simp add: adjacent_def)
    then have "(adjacent rs)\<^sup>*\<^sup>* c p" by (rule r_into_rtranclp[of "adjacent rs"])
    with p(3) show ?thesis by blast
  qed
  have uniq: "p = q"
    if "(adjacent rs)\<^sup>*\<^sup>* c p \<and> linkPrecedence p = ''primary''"
      and "(adjacent rs)\<^sup>*\<^sup>* c q \<and> linkPrecedence q = ''primary''" for p q
  proof -
    from that flat_component_root[OF assms c]
    have pq: "p \<in> set rs" "q \<in> set rs" "rootId p = rootId c" "rootId q = rootId c"
      by blast+
    from that pq(1,2) assms have "linkedId p = None" "linkedId q = None"
      by (auto simp: flat_def)
    with pq(3,4) have "contactId p = contactId q" by (simp add: rootId_def)
    with pq(1,2) assms show "p = q" by (rule_tac flat_unique)
  qed
  from ex uniq show "\<exists>!p. (adjacent rs)\<^sup>*\<^sup>* c p \<and> linkPrecedence p = ''primary''"
    by blast
qed

lemma flat_append_primary:
  assumes "flat rs" "contactId c \<notin> contactId ` set rs" "contactId c \<noteq> 0"
    "linkPrecedence c = ''primary''" "linkedId c = None"
  shows "flat (rs @ [c])"
  using assms unfolding flat_def by auto

lemma flat_append_secondary:
  assumes "flat rs" "contactId c \<notin> contactId ` set rs" "contactId c \<noteq> 0"
    "linkPrecedence c = ''secondary''" "linkedId c = Some (contactId p)"
    "p \<in> set rs" "linkPrecedence p = ''primary''" "deletedAt p = None"
  shows "flat (rs @ [c])"
  using assms unfolding flat_def by auto

lemma mergeWrites_Cons:
  "mergeWrites (p # ps) = Demote (contactId p) # Repoint (contactId p) # mergeWrites ps"
  by (simp add: mergeWrites_def)

lemma flat_merge_all:
  assumes "flat rs"
    and "oldest \<in> set rs" "linkPrecedence oldest = ''primary''" "deletedAt oldest = None"
    and "contactId oldest \<notin> contactId ` set others"
  shows "flat (foldl (applyWrite (contactId oldest) now) rs (mergeWrites others))
       \<and> oldest \<in> set (foldl (applyWrite (contactId oldest) now) rs (mergeWrites others))"
  using assms
proof (induction others arbitrary: rs)
  case Nil
  then show ?case by (simp add: mergeWrites_def)
next
  case (Cons p ps)
  let ?g = "mergeRow (contactId p) (contactId oldest) now"
  have ne: "contactId p \<noteq> contactId oldest" using Cons.prems(5) by auto
  have step: "repoint (demote rs (contactId p) (contactId oldest) now) (contactId p)
                (contactId oldest) = map ?g rs"
    using ne by (rule merge_step_map)
  have f: "flat (map ?g rs)"
    using Cons.prems(1-4) ne by (rule flat_merge_step)
  have "linkedId oldest = None" using Cons.prems(1-3) by (auto simp: flat_def)
  then have "?g oldest = oldest" using Cons.prems(3) ne by (simp add: mergeRow_primary)
  then have o: "oldest \<in> set (map ?g rs)" using Cons.prems(2) by (metis image_eqI set_map)
  have "contactId oldest \<notin> contactId ` set ps" using Cons.prems(5) by auto
  from Cons.IH[OF f o Cons.prems(3,4) this] show ?case
    by (simp add: mergeWrites_Cons step)
qed

section \<open>What the pipeline reads\<close>

lemma distinct_findManyAsc:
  "distinct (map contactId rs) \<Longrightarrow> distinct (map contactId (findManyAsc rs wh))"
proof -
  assume d: "distinct (map contactId rs)"
  then have "distinct (map contactId (filter wh rs))" by (rule distinct_map_filter)
  then show ?thesis
    unfolding findManyAsc_def
    by (metis distinct_map distinct_sort set_sort)
qed

lemma distinct_getAllRelatedContacts:
  "distinct (map contactId rs) \<Longrightarrow> distinct (map contactId (getAllRelatedContacts rs seeds))"
  by (simp add: getAllRelatedContacts_def distinct_findManyAsc)

lemma set_getUniquePrimaries:
  "distinct (map contactId cs) \<Longrightarrow>
   set (getUniquePrimaries cs) = {c \<in> set cs. linkPrecedence c = ''primary''}"
  by (auto simp: getUniquePrimaries_distinct)

lemma primaries_rows:
  assumes "distinct (map contactId rs)"
  shows "set (getUniquePrimaries (getAllRelatedContacts rs seeds))
           \<subseteq> {r \<in> set rs. linkPrecedence r = ''primary'' \<and> deletedAt r = None}"
  using set_getUniquePrimaries[OF distinct_getAllRelatedContacts[OF assms, of seeds]]
  by (auto simp: set_getAllRelatedContacts split: if_splits)

section \<open>What the writes return\<close>

lemma db_create_Inr:
  assumes "db_create st e p l prec = (Inr c, st')"
  shows "c = \<lparr>contactId = nextId st, phoneNumber = p, email = e, linkedId = l,
              linkPrecedence = prec, createdAt = clock st, updatedAt = clock st,
              deletedAt = None\<rparr>
       \<and> rows st' = rows st @ [c] \<and> nextId st' = Suc (nextId st)"
  using assms by (auto simp: db_create_def spend_def Let_def split: if_splits)

lemma db_create_ok:
  assumes "failAfter st = None"
  shows "\<exists>c st'. db_create st e p l prec = (Inr c, st') \<and> linkPrecedence c = prec"
  using assms by (simp add: db_create_def Let_def)

lemma length_mergeWrites: "length (mergeWrites others) = 2 * length others"
  by (induction others) (simp_all add: mergeWrites_def)

lemma mergeLoop_Inr:
  assumes "contactId ` set others \<subseteq> contactId ` set (rows st)"
    and "mergeLoop st oldestId others = (Inr u, st1)"
  shows "rows st1 = foldl (applyWrite oldestId (clock st)) (rows st) (mergeWrites others)
       \<and> nextId st1 = nextId st \<and> clock st1 = clock st"
proof -
  from assms(2) mergeLoop_run[OF assms(1), of oldestId]
  have w: "writesDone st (2 * length others) = 2 * length others"
    and s: "st1 = st\<lparr>rows := foldl (applyWrite oldestId (clock st)) (rows st)
                          (take (writesDone st (2 * length others)) (mergeWrites others)),
                    failAfter := map_option (\<lambda>k. k - 2 * length others) (failAfter st)\<rparr>"
    by (auto split: if_splits)
  from s show ?thesis unfolding w by (simp add: length_mergeWrites)
qed

lemma mergeLoop_ok:
  assumes "contactId ` set others \<subseteq> contactId ` set (rows st)"
    and "failAfter st = None"
  shows "\<exists>st1. mergeLoop st oldestId others = (Inr (), st1) \<and> failAfter st1 = None"
  using mergeLoop_run[OF assms(1), of oldestId] assms(2)
  by (simp add: writesDone_def)

section \<open>A request keeps the invariants\<close>

lemma storeInv_create_primary:
  assumes "storeInv st" and "db_create st e p None ''primary'' = (Inr c, st')"
  shows "storeInv st'"
proof -
  note cr = db_create_Inr[OF assms(2)]
  have fresh: "contactId c \<notin> contactId ` set (rows st)"
    using assms(1) cr by (auto simp: storeInv_def)
  have nz: "contactId c \<noteq> 0"
    using assms(1) cr by (auto simp: storeInv_def flat_def)
  have "flat (rows st @ [c])"
    using assms(1) fresh cr by (intro flat_append_primary) (auto simp: storeInv_def)
  then show ?thesis using assms(1) cr by (auto simp: storeInv_def)
qed

lemma storeInv_create_secondary:
  assumes "storeInv st" and "db_create st e p (Some (contactId q)) ''secondary'' = (Inr c, st')"
    and "q \<in> set (rows st)" "linkPrecedence q = ''primary''" "deletedAt q = None"
  shows "storeInv st'"
proof -
  note cr = db_create_Inr[OF assms(2)]
  have fresh: "contactId c \<notin> contactId ` set (rows st)"
    using assms(1) cr by (auto simp: storeInv_def)
  have nz: "contactId c \<noteq> 0"
    using assms(1) cr by (auto simp: storeInv_def flat_def)
  have "flat (rows st @ [c])"
    using assms(1) fresh nz cr assms(3-5)
    by (intro flat_append_secondary[where p = q]) (auto simp: storeInv_def)
  then show ?thesis using assms(1) cr by (auto simp: storeInv_def)
qed

lemma storeInv_merge:
  assumes "storeInv st"
    and "set primaries \<subseteq> {r \<in> set (rows st). linkPrecedence r = ''primary'' \<and> deletedAt r = None}"
    and "mergePrimaries st primaries allContacts e p = (Inr r, st')"
  shows "storeInv st'"
proof -
  from assms(3) obtain oldest where o: "oldestOf primaries = Inr oldest"
    by (cases "oldestOf primaries") (auto simp: mergePrimaries_def)
  let ?others = "filter (\<lambda>q. contactId q \<noteq> contactId oldest) primaries"
  have oin: "oldest \<in> set (rows st)" "linkPrecedence oldest = ''primary''"
      "deletedAt oldest = None"
    using oldestOf_mem[OF o] assms(2) by auto
  have sub: "contactId ` set ?others \<subseteq> contactId ` set (rows st)"
    using assms(2) by auto
  obtain x st1 where ml: "mergeLoop st (contactId oldest) ?others = (x, st1)"
    by (cases "mergeLoop st (contactId oldest) ?others") auto
  with assms(3) o obtain u where x: "x = Inr u"
    by (cases x) (auto simp: mergePrimaries_def)
  note run = mergeLoop_Inr[OF sub ml[unfolded x]]
  have notin: "contactId oldest \<notin> contactId ` set ?others" by auto
  from flat_merge_all[OF _ oin notin, of "clock st"] assms(1) run
  have f1: "flat (rows st1)" and o1: "oldest \<in> set (rows st1)"
    by (auto simp: storeInv_def)
  have ids1: "contactId ` set (rows st1) = contactId ` set (rows st)"
  proof -
    have "map contactId (foldl (applyWrite (contactId oldest) (clock st)) rs ws)
            = map contactId rs" for rs ws
    proof (induction ws arbitrary: rs)
      case Nil
      show ?case by simp
    next
      case (Cons w ws)
      show ?case by (cases w) (simp_all add: Cons.IH)
    qed
    then show ?thesis using run by (metis set_map)
  qed
  have inv1: "storeInv st1"
    using f1 ids1 run assms(1) unfolding storeInv_def by (metis imageI image_iff)
  let ?fam = "findManyAsc (rows st1)
                (\<lambda>r. (contactId r = contactId oldest \<or> linkedId r = Some (contactId oldest))
                      \<and> deletedAt r = None)"
  show ?thesis
  proof (cases "shouldCreateSecondary ?fam e p")
    case False
    with assms(3) o ml x have "st' = st1" by (simp add: mergePrimaries_def)
    with inv1 show ?thesis by simp
  next
    case True
    obtain y st2 where cr: "db_create st1 e p (Some (contactId oldest)) ''secondary'' = (y, st2)"
      by (cases "db_create st1 e p (Some (contactId oldest)) ''secondary''") auto
    with assms(3) o ml x True obtain c where y: "y = Inr c" and st': "st' = st2"
      by (cases y) (auto simp: mergePrimaries_def)
    from storeInv_create_secondary[OF inv1 cr[unfolded y] o1 oin(2,3)] st'
    show ?thesis by simp
  qed
qed

lemma buildResponse_Inr:
  assumes "\<exists>c \<in> set contacts. linkPrecedence c = ''primary''"
  shows "\<exists>r. buildResponse contacts = Inr r"
proof -
  from find_first_split[OF assms] obtain x where
    "find (\<lambda>c. linkPrecedence c = ''primary'') contacts = Some x" by blast
  then show ?thesis by (simp add: buildResponse_def Let_def)
qed

lemma mergePrimaries_ok:
  assumes "storeInv st" and "failAfter st = None" and "primaries \<noteq> []"
    and "set primaries \<subseteq> {r \<in> set (rows st). linkPrecedence r = ''primary'' \<and> deletedAt r = None}"
  shows "\<exists>r st'. mergePrimaries st primaries allContacts e p = (Inr r, st')"
proof -
  from assms(3) obtain oldest where o: "oldestOf primaries = Inr oldest"
    by (cases primaries) (auto simp: oldestOf_def)
  let ?others = "filter (\<lambda>q. contactId q \<noteq> contactId oldest) primaries"
  have oin: "oldest \<in> set (rows st)" "linkPrecedence oldest = ''primary''"
      "deletedAt oldest = None"
    using oldestOf_mem[OF o] assms(4) by auto
  have sub: "contactId ` set ?others \<subseteq> contactId ` set (rows st)"
    using assms(4) by auto
  from mergeLoop_ok[OF sub assms(2), of "contactId oldest"] obtain st1 where
    ml: "mergeLoop st (contactId oldest) ?others = (Inr (), st1)" and f1: "failAfter st1 = None"
    by blast
  note run = mergeLoop_Inr[OF sub ml]
  have notin: "contactId oldest \<notin> contactId ` set ?others" by auto
  from flat_merge_all[OF _ oin notin, of "clock st"] assms(1) run
  have o1: "oldest \<in> set (rows st1)"
    by (auto simp: storeInv_def)
  let ?fam = "findManyAsc (rows st1)
                (\<lambda>r. (contactId r = contactId oldest \<or> linkedId r = Some (contactId oldest))
                      \<and> deletedAt r = None)"
  have ofam: "oldest \<in> set ?fam" using o1 oin(3) by (simp add: findManyAsc_def)
  show ?thesis
  proof (cases "shouldCreateSecondary ?fam e p")
    case False
    from buildResponse_Inr[of ?fam] ofam oin(2) obtain r where "buildResponse ?fam = Inr r"
      by blast
    with o ml False show ?thesis by (simp add: mergePrimaries_def)
  next
    case True
    from db_create_ok[OF f1, of e p "Some (contactId oldest)" "''secondary''"]
    obtain c st2 where cr: "db_create st1 e p (Some (contactId oldest)) ''secondary'' = (Inr c, st2)"
      by blast
    have "\<exists>x \<in> set (?fam @ [c]). linkPrecedence x = ''primary''"
      using ofam oin(2) by auto
    from buildResponse_Inr[OF this] obtain r where "buildResponse (?fam @ [c]) = Inr r"
      by blast
    with o ml True cr show ?thesis by (simp add: mergePrimaries_def)
  qed
qed

lemma identify_none:
  assumes "primariesOf st e p = []"
  shows "identifyContact st e p =
           (case db_create st e p None ''primary'' of
              (Inl err, st1) \<Rightarrow> (Inl err, st1)
            | (Inr newContact, st1) \<Rightarrow> (buildResponse [newContact], st1))"
  using assms by (simp add: identifyContact_def Let_def primariesOf_def relatedOf_def)

lemma identify_one:
  assumes "primariesOf st e p = [primary]"
  shows "identifyContact st e p =
           (if shouldCreateSecondary (familyOf primary (relatedOf st e p)) e p
            then (case db_create st e p (Some (contactId primary)) ''secondary'' of
                    (Inl err, st1) \<Rightarrow> (Inl err, st1)
                  | (Inr newSecondary, st1) \<Rightarrow>
                      (buildResponse (familyOf primary (relatedOf st e p) @ [newSecondary]), st1))
            else (buildResponse (familyOf primary (relatedOf st e p)), st))"
proof -
  have "getUniquePrimaries
          (getAllRelatedContacts (rows st) (findManyAsc (rows st) (matchWhere e p))) = [primary]"
    using assms unfolding primariesOf_def relatedOf_def .
  then show ?thesis
    unfolding identifyContact_def Let_def relatedOf_def familyOf_def
    by (simp split: prod.splits sum.splits)
qed

lemma identify_many:
  assumes "2 \<le> length (primariesOf st e p)"
  shows "identifyContact st e p = mergePrimaries st (primariesOf st e p) (relatedOf st e p) e p"
proof -
  have "primariesOf st e p \<noteq> []" "length (primariesOf st e p) \<noteq> Suc 0"
    using assms by auto
  then show ?thesis
    unfolding identifyContact_def Let_def primariesOf_def relatedOf_def by simp
qed

lemma primariesOf_cases:
  obtains (none) "primariesOf st e p = []"
  | (one) primary where "primariesOf st e p = [primary]"
  | (many) "2 \<le> length (primariesOf st e p)"
proof (cases "primariesOf st e p")
  case Nil
  then show ?thesis by (rule none)
next
  case (Cons a as)
  then show ?thesis by (cases as) (auto intro: one many)
qed

lemma primariesOf_rows:
  assumes "distinct (map contactId (rows st))"
  shows "set (primariesOf st e p)
           \<subseteq> {r \<in> set (rows st). linkPrecedence r = ''primary'' \<and> deletedAt r = None}"
  unfolding primariesOf_def relatedOf_def using assms by (rule primaries_rows)

lemma primariesOf_related:
  assumes "distinct (map contactId (rows st))"
  shows "set (primariesOf st e p) = {c \<in> set (relatedOf st e p). linkPrecedence c = ''primary''}"
  unfolding primariesOf_def relatedOf_def
  using assms by (intro set_getUniquePrimaries distinct_getAllRelatedContacts)

lemma identify_storeInv:
  assumes "storeInv st" and "identifyContact st e p = (Inr r, st')"
  shows "storeInv st'"
proof -
  have d: "distinct (map contactId (rows st))" using assms(1) by (simp add: storeInv_def flat_def)
  note psub = primariesOf_rows[OF d, of e p]
  show ?thesis
  proof (cases rule: primariesOf_cases[of st e p])
    case none
    obtain y st1 where cr: "db_create st e p None ''primary'' = (y, st1)"
      by (cases "db_create st e p None ''primary''") auto
    with assms(2) identify_none[OF none] obtain c where "y = Inr c" "st' = st1"
      by (cases y) auto
    with storeInv_create_primary[OF assms(1)] cr show ?thesis by simp
  next
    case (one primary)
    let ?fam = "familyOf primary (relatedOf st e p)"
    note ic = identify_one[OF one]
    show ?thesis
    proof (cases "shouldCreateSecondary ?fam e p")
      case False
      with assms(2) ic have "st' = st" by simp
      with assms(1) show ?thesis by simp
    next
      case True
      obtain y st1 where cr: "db_create st e p (Some (contactId primary)) ''secondary'' = (y, st1)"
        by (cases "db_create st e p (Some (contactId primary)) ''secondary''") auto
      with assms(2) ic True obtain c where y: "y = Inr c" and s: "st' = st1"
        by (cases y) auto
      from one psub have "primary \<in> set (rows st)" "linkPrecedence primary = ''primary''"
        "deletedAt primary = None" by auto
      from storeInv_create_secondary[OF assms(1) cr[unfolded y] this] s show ?thesis by simp
    qed
  next
    case many
    with assms(2) have "mergePrimaries st (primariesOf st e p) (relatedOf st e p) e p = (Inr r, st')"
      by (simp add: identify_many)
    from storeInv_merge[OF assms(1) psub this] show ?thesis .
  qed
qed

lemma identify_ok:
  assumes "storeInv st" and "failAfter st = None"
  shows "\<exists>r st'. identifyContact st e p = (Inr r, st')"
proof -
  have d: "distinct (map contactId (rows st))" using assms(1) by (simp add: storeInv_def flat_def)
  note psub = primariesOf_rows[OF d, of e p]
  note prel = primariesOf_related[OF d, of e p]
  show ?thesis
  proof (cases rule: primariesOf_cases[of st e p])
    case none
    from db_create_ok[OF assms(2), of e p None "''primary''"] obtain c st1 where
      cr: "db_create st e p None ''primary'' = (Inr c, st1)" and c: "linkPrecedence c = ''primary''"
      by blast
    from buildResponse_Inr[of "[c]"] c obtain r where "buildResponse [c] = Inr r" by auto
    with cr show ?thesis by (simp add: identify_none[OF none])
  next
    case (one primary)
    let ?fam = "familyOf primary (relatedOf st e p)"
    note ic = identify_one[OF one]
    from one prel have pf: "primary \<in> set ?fam" "linkPrecedence primary = ''primary''"
      by (auto simp: familyOf_def)
    show ?thesis
    proof (cases "shouldCreateSecondary ?fam e p")
      case False
      from buildResponse_Inr[of ?fam] pf obtain r where "buildResponse ?fam = Inr r" by blast
      with False show ?thesis by (simp add: ic)
    next
      case True
      from db_create_ok[OF assms(2), of e p "Some (contactId primary)" "''secondary''"]
      obtain c st1 where
        cr: "db_create st e p (Some (contactId primary)) ''secondary'' = (Inr c, st1)"
        by blast
      have "\<exists>x \<in> set (?fam @ [c]). linkPrecedence x = ''primary''" using pf by auto
      from buildResponse_Inr[OF this] obtain r where "buildResponse (?fam @ [c]) = Inr r"
        by blast
      with True cr show ?thesis by (simp add: ic)
    qed
  next
    case many
    then have "primariesOf st e p \<noteq> []" by auto
    from mergePrimaries_ok[OF assms(1,2) this psub, of "relatedOf st e p" e p] many show ?thesis
      by (simp add: identify_many)
  qed
qed

text \<open>
  C3. From a store that satisfies the invariants of the data model (a table with distinct
  ids from the sequence, precedences \<open>primary\<close> or \<open>secondary\<close>, \<open>linkedId\<close> on
  secondaries only), a request that completes leaves a store that satisfies them again:
  every secondary's \<open>linkedId\<close> resolves to a primary that is not tombstoned, no
  \<open>linkedId\<close> names a secondary, and every connected component has exactly one primary.
  A request completes whenever the store does not fail. This holds for every request,
  whether or not it supplies an identifier.
\<close>

theorem identify_keeps_invariants:
  assumes "tableOk st" and "linksResolve (rows st)" and "depthOne (rows st)"
    and "onePrimaryPerComponent (rows st)"
  shows "(failAfter st = None \<longrightarrow> (\<exists>r. fst (identifyContact st email' phoneNumber') = Inr r))
       \<and> ((\<exists>r. fst (identifyContact st email' phoneNumber') = Inr r) \<longrightarrow>
             tableOk (snd (identifyContact st email' phoneNumber'))
           \<and> linksResolve (rows (snd (identifyContact st email' phoneNumber')))
           \<and> depthOne (rows (snd (identifyContact st email' phoneNumber')))
           \<and> onePrimaryPerComponent (rows (snd (identifyContact st email' phoneNumber'))))"
proof (intro conjI impI)
  have inv: "storeInv st" using assms(1,2) by (simp add: storeInv_iff)
  {
    assume "failAfter st = None"
    from identify_ok[OF inv this, of email' phoneNumber']
    show "\<exists>r. fst (identifyContact st email' phoneNumber') = Inr r" by auto
  }
  assume "\<exists>r. fst (identifyContact st email' phoneNumber') = Inr r"
  then obtain r where "identifyContact st email' phoneNumber'
                         = (Inr r, snd (identifyContact st email' phoneNumber'))"
    by (metis prod.collapse)
  from identify_storeInv[OF inv this]
  have inv': "storeInv (snd (identifyContact st email' phoneNumber'))" .
  then show "tableOk (snd (identifyContact st email' phoneNumber'))"
    and "linksResolve (rows (snd (identifyContact st email' phoneNumber')))"
    by (simp_all add: storeInv_iff)
  from inv' have "flat (rows (snd (identifyContact st email' phoneNumber')))"
    by (simp add: storeInv_def)
  then show "depthOne (rows (snd (identifyContact st email' phoneNumber')))"
    and "onePrimaryPerComponent (rows (snd (identifyContact st email' phoneNumber')))"
    by (rule flat_depthOne, rule flat_onePrimaryPerComponent)
qed

theorem identify_keeps_invariants_witness:
  "tableOk
     \<lparr>rows = [row 1 (Some ''a@x.com'') (Some ''111'') None ''primary'' 10 None,
              row 2 (Some ''b@x.com'') (Some ''222'') None ''primary'' 20 None,
              row 3 (Some ''c@x.com'') (Some ''222'') (Some 2) ''secondary'' 30 None],
      nextId = 4, clock = 100, failAfter = None\<rparr>
   \<and> linksResolve
       [row 1 (Some ''a@x.com'') (Some ''111'') None ''primary'' 10 None,
        row 2 (Some ''b@x.com'') (Some ''222'') None ''primary'' 20 None,
        row 3 (Some ''c@x.com'') (Some ''222'') (Some 2) ''secondary'' 30 None]
   \<and> linksResolve (rows (snd (identifyContact
       \<lparr>rows = [row 1 (Some ''a@x.com'') (Some ''111'') None ''primary'' 10 None,
                row 2 (Some ''b@x.com'') (Some ''222'') None ''primary'' 20 None,
                row 3 (Some ''c@x.com'') (Some ''222'') (Some 2) ''secondary'' 30 None],
        nextId = 4, clock = 100, failAfter = None\<rparr>
       (Some ''a@x.com'') (Some ''222''))))
   \<and> depthOne (rows (snd (identifyContact
       \<lparr>rows = [row 1 (Some ''a@x.com'') (Some ''111'') None ''primary'' 10 None,
                row 2 (Some ''b@x.com'') (Some ''222'') None ''primary'' 20 None,
                row 3 (Some ''c@x.com'') (Some ''222'') (Some 2) ''secondary'' 30 None],
        nextId = 4, clock = 100, failAfter = None\<rparr>
       (Some ''a@x.com'') (Some ''222''))))
   \<and> onePrimaryPerComponent (rows (snd (identifyContact
       \<lparr>rows = [row 1 (Some ''a@x.com'') (Some ''111'') None ''primary'' 10 None,
                row 2 (Some ''b@x.com'') (Some ''222'') None ''primary'' 20 None,
                row 3 (Some ''c@x.com'') (Some ''222'') (Some 2) ''secondary'' 30 None],
        nextId = 4, clock = 100, failAfter = None\<rparr>
       (Some ''a@x.com'') (Some ''222''))))
   \<and> map (\<lambda>r. (contactId r, linkPrecedence r, linkedId r))
       (rows (snd (identifyContact
         \<lparr>rows = [row 1 (Some ''a@x.com'') (Some ''111'') None ''primary'' 10 None,
                  row 2 (Some ''b@x.com'') (Some ''222'') None ''primary'' 20 None,
                  row 3 (Some ''c@x.com'') (Some ''222'') (Some 2) ''secondary'' 30 None],
          nextId = 4, clock = 100, failAfter = None\<rparr>
         (Some ''a@x.com'') (Some ''222''))))
     = [(1, ''primary'', None), (2, ''secondary'', Some 1), (3, ''secondary'', Some 1)]"
proof -
  let ?rs = "[row 1 (Some ''a@x.com'') (Some ''111'') None ''primary'' 10 None,
              row 2 (Some ''b@x.com'') (Some ''222'') None ''primary'' 20 None,
              row 3 (Some ''c@x.com'') (Some ''222'') (Some 2) ''secondary'' 30 None]"
  let ?st = "\<lparr>rows = ?rs, nextId = 4, clock = 100, failAfter = None\<rparr>"
  have f: "flat ?rs" by (simp add: flat_def row_def)
  have t: "tableOk ?st" by (simp add: tableOk_def row_def)
  have l: "linksResolve (rows ?st)" by (simp add: linksResolve_def row_def)
  have d: "depthOne (rows ?st)" using f by (simp add: flat_depthOne)
  have o: "onePrimaryPerComponent (rows ?st)" using f by (simp add: flat_onePrimaryPerComponent)
  have n: "failAfter ?st = None" by simp
  note inst = identify_keeps_invariants[OF t l d o, of "Some ''a@x.com''" "Some ''222''"]
  from inst n have
    "\<exists>r. fst (identifyContact ?st (Some ''a@x.com'') (Some ''222'')) = Inr r"
    by blast
  with inst have post:
    "linksResolve (rows (snd (identifyContact ?st (Some ''a@x.com'') (Some ''222''))))"
    "depthOne (rows (snd (identifyContact ?st (Some ''a@x.com'') (Some ''222''))))"
    "onePrimaryPerComponent (rows (snd (identifyContact ?st (Some ''a@x.com'') (Some ''222''))))"
    by blast+
  have r: "map (\<lambda>r. (contactId r, linkPrecedence r, linkedId r))
       (rows (snd (identifyContact ?st (Some ''a@x.com'') (Some ''222''))))
     = [(1, ''primary'', None), (2, ''secondary'', Some 1), (3, ''secondary'', Some 1)]"
    by code_simp
  from t l post r show ?thesis using l by (intro conjI) simp_all
qed

section \<open>The expanded set of a flat table\<close>

lemma flat_target_root:
  assumes "flat rs" "c \<in> set rs" "t \<in> linkTargets rs c"
  shows "rootId t = rootId c"
proof -
  have t: "t \<in> set rs" using assms(3) linkTargets_rows by blast
  from assms(3) consider
      (up) k where "linkedId c = Some k" "findUnique rs k = Some t"
    | (down) "linkedId t = Some (contactId c)"
    by (auto simp: linkTargets_def split: option.splits if_splits)
  then show ?thesis
  proof cases
    case up
    then have "contactId t = k" by (auto simp: findUnique_def find_Some_iff)
    with up(1) flat_link_root[OF assms(1,2) t] show ?thesis by simp
  next
    case down
    with flat_link_root[OF assms(1) t assms(2)] show ?thesis by simp
  qed
qed

lemma flat_root_row:
  assumes "flat rs" "m \<in> set rs"
  shows "\<exists>root \<in> set rs. contactId root = rootId m \<and> linkPrecedence root = ''primary''
           \<and> (root = m \<or> (root \<in> linkTargets rs m \<and> deletedAt root = None))"
proof (cases "linkPrecedence m = ''primary''")
  case True
  with assms have "linkedId m = None" by (auto simp: flat_def)
  with True assms(2) show ?thesis by (auto simp: rootId_def)
next
  case False
  with assms obtain q where q: "q \<in> set rs" "linkedId m = Some (contactId q)"
    "linkPrecedence q = ''primary''" "deletedAt q = None"
    unfolding flat_def by blast
  have d: "distinct (map contactId rs)" using assms(1) by (simp add: flat_def)
  have "contactId q \<noteq> 0" using assms(1) q(1) by (auto simp: flat_def)
  with q findUnique_row[OF d q(1)] have "q \<in> linkTargets rs m"
    by (simp add: linkTargets_def)
  with q show ?thesis by (auto simp: rootId_def)
qed

lemma set_findManyAsc [simp]: "set (findManyAsc rs wh) = {r \<in> set rs. wh r}"
  by (simp add: findManyAsc_def)

lemma related_ids:
  assumes "flat (rows st)" and "r \<in> set (rows st)" and "deletedAt r = None"
  shows "(contactId r \<in> expandLoop (rows st)
             (rev (findManyAsc (rows st) (matchWhere e p))) {} {})
         = (rootId r \<in> rootId ` matched st e p)"
proof
  let ?rs = "rows st"
  let ?seeds = "findManyAsc ?rs (matchWhere e p)"
  let ?R = "expandLoop ?rs (rev ?seeds) {} {}"
  let ?Q = "{q \<in> set ?rs. rootId q \<in> rootId ` matched st e p}"
  have d: "distinct (map contactId ?rs)" using assms(1) by (simp add: flat_def)
  {
    assume "contactId r \<in> ?R"
    have closedQ: "\<forall>c \<in> ?Q. linkTargets ?rs c \<subseteq> ?Q"
      using flat_target_root[OF assms(1)] linkTargets_rows[of ?rs] by fastforce
    have "set (rev ?seeds) \<subseteq> ?Q" by (auto simp: matched_def)
    from expandLoop_sound[OF closedQ this, of "{}" "{}"] \<open>contactId r \<in> ?R\<close>
    have "contactId r \<in> contactId ` ?Q" by auto
    then obtain q where "q \<in> ?Q" "contactId q = contactId r" by (elim imageE) simp
    with flat_unique[OF assms(1) _ assms(2)] have "q = r" by simp
    with \<open>q \<in> ?Q\<close> show "rootId r \<in> rootId ` matched st e p" by simp
  }
  {
    assume "rootId r \<in> rootId ` matched st e p"
    then obtain m where m: "m \<in> set ?rs" "matchWhere e p m" "rootId r = rootId m"
      by (auto simp: matched_def)
    have closed: "contactId ` set (rev ?seeds) \<subseteq> ?R
       \<and> (\<forall>x \<in> set ?rs. contactId x \<in> ?R \<longrightarrow> contactId ` linkTargets ?rs x \<subseteq> ?R)"
      using d by (intro expandLoop_closed) auto
    have mR: "contactId m \<in> ?R" using closed m(1,2) by auto
    from flat_root_row[OF assms(1) m(1)] obtain root where root:
      "root \<in> set ?rs" "contactId root = rootId m" "linkPrecedence root = ''primary''"
      "root = m \<or> root \<in> linkTargets ?rs m"
      by blast
    have rootR: "contactId root \<in> ?R"
      using root(4) mR closed m(1) by blast
    show "contactId r \<in> ?R"
    proof (cases "linkedId r")
      case None
      then have "contactId r = contactId root" using m(3) root(2) by (simp add: rootId_def)
      with rootR show ?thesis by simp
    next
      case (Some k)
      then have "linkedId r = Some (contactId root)" using m(3) root(2) by (simp add: rootId_def)
      with assms(2,3) root(3) have "r \<in> linkTargets ?rs root" by (simp add: linkTargets_def)
      with closed root(1) rootR show ?thesis by blast
    qed
  }
qed

lemma relatedOf_flat:
  assumes "flat (rows st)"
  shows "relatedOf st e p = findManyAsc (rows st) (inFamilies st e p)"
proof -
  define seeds where "seeds = findManyAsc (rows st) (matchWhere e p)"
  have rel: "relatedOf st e p = getAllRelatedContacts (rows st) seeds"
    by (simp add: relatedOf_def seeds_def)
  show ?thesis
  proof (cases "seeds = []")
    case True
    then have "{r \<in> set (rows st). matchWhere e p r} = {}"
      unfolding seeds_def by (metis set_findManyAsc set_empty)
    then have "matched st e p = {}" by (simp add: matched_def)
    then have "filter (inFamilies st e p) (rows st) = []"
      by (simp add: inFamilies_def)
    with True show ?thesis
      by (simp add: rel getAllRelatedContacts_def findManyAsc_def)
  next
    case False
    have "filter (\<lambda>r. contactId r \<in> expandLoop (rows st) (rev seeds) {} {}
                     \<and> deletedAt r = None) (rows st)
        = filter (inFamilies st e p) (rows st)"
      unfolding seeds_def
      using related_ids[OF assms, of _ e p] by (intro filter_cong) (auto simp: inFamilies_def)
    with False show ?thesis
      by (simp add: rel getAllRelatedContacts_def findManyAsc_def)
  qed
qed

lemma primariesOf_flat:
  assumes "flat (rows st)"
  shows "primariesOf st e p
           = findManyAsc (rows st) (\<lambda>r. inFamilies st e p r \<and> linkPrecedence r = ''primary'')"
proof -
  have d: "distinct (map contactId (relatedOf st e p))"
    unfolding relatedOf_def using assms
    by (intro distinct_getAllRelatedContacts) (simp add: flat_def)
  have "primariesOf st e p
          = sort_key createdAt (filter (\<lambda>c. linkPrecedence c = ''primary'') (relatedOf st e p))"
    unfolding primariesOf_def using d by (rule getUniquePrimaries_distinct)
  also have "\<dots> = sort_key createdAt (sort_key createdAt
                (filter (\<lambda>c. linkPrecedence c = ''primary'')
                   (filter (inFamilies st e p) (rows st))))"
    by (simp add: relatedOf_flat[OF assms] findManyAsc_def filter_sort del: filter_filter)
  also have "\<dots> = sort_key createdAt
                (filter (\<lambda>c. linkPrecedence c = ''primary'')
                   (filter (inFamilies st e p) (rows st)))"
    by (simp add: sort_key_id_if_sorted)
  finally show ?thesis by (simp add: findManyAsc_def conj_commute)
qed

section \<open>The rows after a merge\<close>

lemma mergeAll_step:
  assumes "flat rs" and "r \<in> set rs"
    and "\<forall>q \<in> set ps. q \<in> set rs \<and> linkPrecedence q = ''primary''"
    and "k \<notin> contactId ` set ps" and "oldestId \<notin> contactId ` set ps" and "oldestId \<noteq> k"
  shows "mergeAll (contactId ` set ps) oldestId now (mergeRow k oldestId now r)
           = mergeAll (insert k (contactId ` set ps)) oldestId now r"
proof -
  have sec: "contactId r \<notin> contactId ` set ps" if "linkedId r \<noteq> None"
  proof
    assume "contactId r \<in> contactId ` set ps"
    then obtain q where q: "q \<in> set ps" "contactId q = contactId r" by auto
    with assms(3) have "q \<in> set rs" "linkPrecedence q = ''primary''" by auto
    with flat_unique[OF assms(1) _ assms(2)] q(2) have "linkPrecedence r = ''primary''" by auto
    with assms(1,2) have "linkedId r = None" by (auto simp: flat_def)
    with that show False by simp
  qed
  consider (self) "contactId r = k" | (child) "contactId r \<noteq> k" "linkedId r = Some k"
    | (other) "contactId r \<noteq> k" "linkedId r \<noteq> Some k"
    by blast
  then show ?thesis
  proof cases
    case self
    with assms(4,5) show ?thesis by (auto simp: mergeAll_def mergeRow_def)
  next
    case child
    with sec assms(4,5) show ?thesis by (auto simp: mergeAll_def mergeRow_def)
  next
    case other
    then show ?thesis by (auto simp: mergeAll_def mergeRow_def)
  qed
qed

lemma merge_fold_closed:
  assumes "flat rs"
    and "oldest \<in> set rs" "linkPrecedence oldest = ''primary''" "deletedAt oldest = None"
    and "\<forall>q \<in> set others. q \<in> set rs \<and> linkPrecedence q = ''primary''"
    and "distinct (map contactId others)"
    and "contactId oldest \<notin> contactId ` set others"
  shows "foldl (applyWrite (contactId oldest) now) rs (mergeWrites others)
           = map (mergeAll (contactId ` set others) (contactId oldest) now) rs"
  using assms
proof (induction others arbitrary: rs)
  case Nil
  show ?case by (simp add: mergeWrites_def mergeAll_def)
next
  case (Cons p ps)
  let ?oid = "contactId oldest"
  let ?g = "mergeRow (contactId p) ?oid now"
  have ne: "contactId p \<noteq> ?oid" using Cons.prems(7) by auto
  have step: "repoint (demote rs (contactId p) ?oid now) (contactId p) ?oid = map ?g rs"
    using ne by (rule merge_step_map)
  have f1: "flat (map ?g rs)" using Cons.prems(1-4) ne by (rule flat_merge_step)
  have keep: "?g q = q" if "q \<in> set rs" "linkPrecedence q = ''primary''"
     "contactId q \<noteq> contactId p" for q
  proof -
    from that Cons.prems(1) have "linkedId q = None" by (auto simp: flat_def)
    with that show ?thesis by (simp add: mergeRow_primary)
  qed
  have o1: "oldest \<in> set (map ?g rs)"
    using keep[OF Cons.prems(2,3)] ne Cons.prems(2) by (metis image_eqI set_map)
  have ps1: "\<forall>q \<in> set ps. q \<in> set (map ?g rs) \<and> linkPrecedence q = ''primary''"
  proof
    fix q assume q: "q \<in> set ps"
    with Cons.prems(5) have qq: "q \<in> set rs" "linkPrecedence q = ''primary''" by auto
    have "contactId q \<noteq> contactId p" using Cons.prems(6) q by (metis distinct.simps(2) image_eqI list.simps(9) set_map)
    from keep[OF qq this] qq show "q \<in> set (map ?g rs) \<and> linkPrecedence q = ''primary''"
      by (metis image_eqI set_map)
  qed
  have d1: "distinct (map contactId ps)" using Cons.prems(6) by simp
  have n1: "?oid \<notin> contactId ` set ps" using Cons.prems(7) by auto
  have pn: "contactId p \<notin> contactId ` set ps" using Cons.prems(6) by auto
  have psrs: "\<forall>q \<in> set ps. q \<in> set rs \<and> linkPrecedence q = ''primary''"
    using Cons.prems(5) by auto
  have "foldl (applyWrite ?oid now) rs (mergeWrites (p # ps))
          = foldl (applyWrite ?oid now) (map ?g rs) (mergeWrites ps)"
    by (simp add: mergeWrites_Cons step)
  also have "\<dots> = map (mergeAll (contactId ` set ps) ?oid now) (map ?g rs)"
    by (rule Cons.IH[OF f1 o1 Cons.prems(3,4) ps1 d1 n1])
  also have "\<dots> = map (mergeAll (contactId ` set (p # ps)) ?oid now) rs"
    using mergeAll_step[OF Cons.prems(1) _ psrs pn n1, of _ now] ne by simp
  finally show ?case .
qed

lemma primariesOf_sorted:
  assumes "flat (rows st)"
  shows "sorted (map createdAt (primariesOf st e p))"
    and "distinct (map contactId (primariesOf st e p))"
    and "set (primariesOf st e p)
           = {r \<in> set (rows st). inFamilies st e p r \<and> linkPrecedence r = ''primary''}"
proof -
  note eq = primariesOf_flat[OF assms, of e p]
  show "sorted (map createdAt (primariesOf st e p))"
    unfolding eq by (simp add: findManyAsc_def)
  show "distinct (map contactId (primariesOf st e p))"
    unfolding eq using assms by (intro distinct_findManyAsc) (simp add: flat_def)
  show "set (primariesOf st e p)
           = {r \<in> set (rows st). inFamilies st e p r \<and> linkPrecedence r = ''primary''}"
    unfolding eq by simp
qed

lemma identify_merge:
  assumes "storeInv st" and "failAfter st = None"
    and "primariesOf st e p = oldest # others" and "others \<noteq> []"
  shows "identifyContact st e p =
           (if shouldCreateSecondary (survivorFamily (rows (mergedStore st oldest others)) oldest) e p
            then (case db_create (mergedStore st oldest others) e p
                         (Some (contactId oldest)) ''secondary'' of
                    (Inl err, st2) \<Rightarrow> (Inl err, st2)
                  | (Inr newSecondary, st2) \<Rightarrow>
                      (buildResponse
                         (survivorFamily (rows (mergedStore st oldest others)) oldest
                            @ [newSecondary]), st2))
            else (buildResponse (survivorFamily (rows (mergedStore st oldest others)) oldest),
                  mergedStore st oldest others))"
proof -
  have f: "flat (rows st)" using assms(1) by (simp add: storeInv_def)
  note ps = primariesOf_sorted[OF f, of e p]
  have many: "2 \<le> length (primariesOf st e p)"
    using assms(3,4) by (cases others) auto
  have old: "oldestOf (primariesOf st e p) = Inr oldest"
    using ps(1) unfolding assms(3) by (rule oldestOf_sorted)
  have n0: "contactId oldest \<notin> contactId ` set others"
    using ps(2) unfolding assms(3) by auto
  then have "\<forall>q \<in> set others. contactId q \<noteq> contactId oldest" by (metis imageI)
  then have oth: "filter (\<lambda>q. contactId q \<noteq> contactId oldest) (primariesOf st e p) = others"
    unfolding assms(3) by (simp add: filter_id_conv)
  have prim: "\<forall>q \<in> set (oldest # others). q \<in> set (rows st) \<and> linkPrecedence q = ''primary''
                \<and> deletedAt q = None"
    using ps(3) unfolding assms(3) by (auto simp: inFamilies_def)
  have sub: "contactId ` set others \<subseteq> contactId ` set (rows st)"
    using prim by auto
  have d: "distinct (map contactId others)" and n: "contactId oldest \<notin> contactId ` set others"
    using ps(2) unfolding assms(3) by auto
  have fold: "foldl (applyWrite (contactId oldest) (clock st)) (rows st) (mergeWrites others)
                = rows (mergedStore st oldest others)"
    using merge_fold_closed[OF f _ _ _ _ d n, of "clock st"] prim
    by (simp add: mergedStore_def)
  have "mergeLoop st (contactId oldest) others
          = (Inr (), st\<lparr>rows := rows (mergedStore st oldest others), failAfter := None\<rparr>)"
    using mergeLoop_run[OF sub, of "contactId oldest"] assms(2)
    by (simp add: writesDone_def length_mergeWrites fold)
  also have "st\<lparr>rows := rows (mergedStore st oldest others), failAfter := None\<rparr>
               = mergedStore st oldest others"
    using assms(2) by (simp add: mergedStore_def)
  finally have ml: "mergeLoop st (contactId oldest) others = (Inr (), mergedStore st oldest others)" .
  show ?thesis
    unfolding identify_many[OF many] survivorFamily_def
    by (simp add: mergePrimaries_def old Let_def oth ml)
qed

lemma mergeAll_fields [simp]:
  "contactId (mergeAll K oldestId now r) = contactId r"
  "email (mergeAll K oldestId now r) = email r"
  "phoneNumber (mergeAll K oldestId now r) = phoneNumber r"
  "deletedAt (mergeAll K oldestId now r) = deletedAt r"
  "createdAt (mergeAll K oldestId now r) = createdAt r"
  by (simp_all add: mergeAll_def)

lemma mergeAll_matchWhere [simp]:
  "matchWhere e p (mergeAll K oldestId now r) = matchWhere e p r"
  by (simp add: matchWhere_def)

lemma mergeAll_root:
  assumes "flat rs" and "r \<in> set rs"
    and "\<forall>q \<in> set others. q \<in> set rs \<and> linkPrecedence q = ''primary''"
    and "oldestId \<notin> contactId ` set others"
  shows "rootId (mergeAll (contactId ` set others) oldestId now r)
           = (if rootId r \<in> contactId ` set others then oldestId else rootId r)"
proof -
  let ?K = "contactId ` set others"
  have prim: "linkedId r = None" if "contactId r \<in> ?K"
  proof -
    from that obtain q where q: "q \<in> set others" "contactId q = contactId r" by auto
    with assms(3) have "q \<in> set rs" "linkPrecedence q = ''primary''" by auto
    with flat_unique[OF assms(1) _ assms(2)] q(2) have "linkPrecedence r = ''primary''" by auto
    with assms(1,2) show ?thesis by (auto simp: flat_def)
  qed
  show ?thesis
  proof (cases "contactId r \<in> ?K")
    case True
    with prim show ?thesis by (simp add: mergeAll_def rootId_def)
  next
    case False
    show ?thesis
    proof (cases "linkedId r")
      case None
      with False show ?thesis by (simp add: mergeAll_def rootId_def)
    next
      case (Some k)
      with False show ?thesis by (auto simp: mergeAll_def rootId_def)
    qed
  qed
qed

lemma root_oldest_iff:
  assumes "flat rs" and "r \<in> set rs" and "oldest \<in> set rs"
    and "linkPrecedence oldest = ''primary''"
  shows "(rootId r = contactId oldest)
           = (contactId r = contactId oldest \<or> linkedId r = Some (contactId oldest))"
proof -
  have "linkedId oldest = None" using assms(1,3,4) by (auto simp: flat_def)
  moreover have "r = oldest" if "contactId r = contactId oldest"
    using flat_unique[OF assms(1,2,3) that] .
  ultimately show ?thesis by (cases "linkedId r") (auto simp: rootId_def)
qed

lemma matched_root_primary:
  assumes "flat (rows st)" and "m \<in> matched st e p"
  shows "rootId m \<in> contactId ` set (primariesOf st e p)"
proof -
  from assms(2) have m: "m \<in> set (rows st)" "deletedAt m = None"
    by (auto simp: matched_def matchWhere_def)
  from flat_root_row[OF assms(1) m(1)] m(2) obtain root where root:
    "root \<in> set (rows st)" "contactId root = rootId m" "linkPrecedence root = ''primary''"
    "deletedAt root = None"
    by blast
  have "linkedId root = None" using assms(1) root(1,3) by (auto simp: flat_def)
  then have "rootId root = rootId m" using root(2) by (simp add: rootId_def)
  then have "inFamilies st e p root" using root(4) assms(2) by (auto simp: inFamilies_def)
  with root(1,3) have "root \<in> set (primariesOf st e p)"
    by (simp add: primariesOf_sorted(3)[OF assms(1)])
  with root(2) show ?thesis by (metis imageI)
qed

lemma exact_pair_no_create:
  assumes "c \<in> set family" and "email c = e" and "phoneNumber c = p"
  shows "\<not> shouldCreateSecondary family e p"
proof (cases e; cases p)
  show "\<not> shouldCreateSecondary family e p" if "e = None" "p = None"
    using that by (simp add: shouldCreateSecondary_def strictEq_def truthy_def)
  show "\<not> shouldCreateSecondary family e p" if "e = None" "p = Some b" for b
    using that assms by (auto simp: shouldCreateSecondary_def strictEq_def truthy_def)
  show "\<not> shouldCreateSecondary family e p" if "e = Some a" "p = None" for a
    using that assms by (auto simp: shouldCreateSecondary_def strictEq_def truthy_def)
  show "\<not> shouldCreateSecondary family e p" if "e = Some a" "p = Some b" for a b
    using that assms by (auto simp: shouldCreateSecondary_def strictEq_def truthy_def)
qed

section \<open>The store after a merge\<close>

lemma primariesOf_rows_flat:
  assumes "flat (rows st)" and "q \<in> set (primariesOf st e p)"
  shows "q \<in> set (rows st)" "linkPrecedence q = ''primary''" "deletedAt q = None"
  using assms(2) by (auto simp: primariesOf_sorted(3)[OF assms(1)] inFamilies_def)

lemma mergedStore_inv:
  assumes "storeInv st" and "primariesOf st e p = oldest # others"
  shows "storeInv (mergedStore st oldest others)"
    and "oldest \<in> set (rows (mergedStore st oldest others))"
proof -
  have f: "flat (rows st)" using assms(1) by (simp add: storeInv_def)
  note ps = primariesOf_sorted[OF f, of e p]
  have o: "oldest \<in> set (rows st)" "linkPrecedence oldest = ''primary''" "deletedAt oldest = None"
    using primariesOf_rows_flat[OF f, of oldest e p] assms(2) by auto
  have oth: "\<forall>q \<in> set others. q \<in> set (rows st) \<and> linkPrecedence q = ''primary''"
    using primariesOf_rows_flat[OF f, of _ e p] assms(2) by auto
  have d: "distinct (map contactId others)" and n: "contactId oldest \<notin> contactId ` set others"
    using ps(2) unfolding assms(2) by auto
  have fold: "foldl (applyWrite (contactId oldest) (clock st)) (rows st) (mergeWrites others)
                = rows (mergedStore st oldest others)"
    using merge_fold_closed[OF f o oth d n, of "clock st"] by (simp add: mergedStore_def)
  from flat_merge_all[OF f o n, of "clock st"]
  have f1: "flat (rows (mergedStore st oldest others))"
    and o1: "oldest \<in> set (rows (mergedStore st oldest others))"
    unfolding fold by simp_all
  show "oldest \<in> set (rows (mergedStore st oldest others))" by (rule o1)
  have "\<forall>r \<in> set (rows (mergedStore st oldest others)). contactId r < nextId st"
    using assms(1) by (auto simp: storeInv_def mergedStore_def)
  with f1 assms(1) show "storeInv (mergedStore st oldest others)"
    by (simp add: storeInv_def mergedStore_def)
qed

lemma mergedStore_matched:
  "matched (mergedStore st oldest others) e p
     = mergeAll (contactId ` set others) (contactId oldest) (clock st) ` matched st e p"
  by (auto simp: matched_def mergedStore_def)

lemma mergedStore_roots:
  assumes "storeInv st" and "primariesOf st e p = oldest # others"
    and "m \<in> matched st e p"
  shows "rootId (mergeAll (contactId ` set others) (contactId oldest) (clock st) m)
           = contactId oldest"
proof -
  have f: "flat (rows st)" using assms(1) by (simp add: storeInv_def)
  note ps = primariesOf_sorted[OF f, of e p]
  have oth: "\<forall>q \<in> set others. q \<in> set (rows st) \<and> linkPrecedence q = ''primary''"
    using primariesOf_rows_flat[OF f, of _ e p] assms(2) by auto
  have n: "contactId oldest \<notin> contactId ` set others"
    using ps(2) unfolding assms(2) by auto
  have m: "m \<in> set (rows st)" using assms(3) by (simp add: matched_def)
  have "rootId m \<in> insert (contactId oldest) (contactId ` set others)"
    using matched_root_primary[OF f assms(3)] unfolding assms(2) by simp
  then show ?thesis
    unfolding mergeAll_root[OF f m oth n] by auto
qed

lemma single_by_set:
  assumes "distinct (map f xs)" and "set xs = {a}"
  shows "xs = [a]"
proof (cases xs)
  case Nil
  with assms(2) show ?thesis by simp
next
  case (Cons x ys)
  with assms(2) have x: "x = a" by auto
  have "ys = []"
  proof (cases ys)
    case Nil
    then show ?thesis .
  next
    case (Cons y zs)
    with \<open>xs = x # ys\<close> assms(2) have "y = a" by auto
    with x Cons \<open>xs = x # ys\<close> assms(1) show ?thesis by simp
  qed
  with x Cons show ?thesis by simp
qed

lemma after_merge_one_family:
  assumes "storeInv st" and "primariesOf st e p = oldest # others"
    and "matched st e p \<noteq> {}"
  shows "primariesOf (mergedStore st oldest others) e p = [oldest]"
    and "familyOf oldest (relatedOf (mergedStore st oldest others) e p)
           = survivorFamily (rows (mergedStore st oldest others)) oldest"
proof -
  let ?st1 = "mergedStore st oldest others"
  have inv1: "storeInv ?st1" and o1: "oldest \<in> set (rows ?st1)"
    using mergedStore_inv[OF assms(1,2)] by simp_all
  have f: "flat (rows st)" using assms(1) by (simp add: storeInv_def)
  have f1: "flat (rows ?st1)" using inv1 by (simp add: storeInv_def)
  have op: "linkPrecedence oldest = ''primary''" "deletedAt oldest = None"
    using primariesOf_rows_flat[OF f, of oldest e p] assms(2) by auto
  have roots: "rootId ` matched ?st1 e p = {contactId oldest}"
    unfolding mergedStore_matched
    using mergedStore_roots[OF assms(1,2)] assms(3) by (auto simp: image_iff)
  have fam: "inFamilies ?st1 e p r
               = ((contactId r = contactId oldest \<or> linkedId r = Some (contactId oldest))
                  \<and> deletedAt r = None)"
    if "r \<in> set (rows ?st1)" for r
    using root_oldest_iff[OF f1 that o1 op(1)] by (auto simp: inFamilies_def roots)
  have "set (primariesOf ?st1 e p) = {oldest}"
  proof -
    have "r = oldest" if "r \<in> set (rows ?st1)" "inFamilies ?st1 e p r"
      "linkPrecedence r = ''primary''" for r
    proof -
      from that(1,3) f1 have "linkedId r = None" by (auto simp: flat_def)
      with that(2) fam[OF that(1)] have "contactId r = contactId oldest" by simp
      then show ?thesis using flat_unique[OF f1 that(1) o1] by simp
    qed
    moreover have "inFamilies ?st1 e p oldest" using fam[OF o1] op(2) by simp
    ultimately show ?thesis
      unfolding primariesOf_sorted(3)[OF f1] using o1 op(1) by auto
  qed
  with primariesOf_sorted(2)[OF f1, of e p] show "primariesOf ?st1 e p = [oldest]"
    by (rule single_by_set)
  have "filter (\<lambda>c. contactId c = contactId oldest \<or> linkedId c = Some (contactId oldest))
          (filter (inFamilies ?st1 e p) (rows ?st1))
        = filter (\<lambda>r. (contactId r = contactId oldest \<or> linkedId r = Some (contactId oldest))
                      \<and> deletedAt r = None) (rows ?st1)"
    unfolding filter_filter using fam by (intro filter_cong) auto
  then show "familyOf oldest (relatedOf ?st1 e p) = survivorFamily (rows ?st1) oldest"
    unfolding familyOf_def survivorFamily_def relatedOf_flat[OF f1] findManyAsc_def
    by (simp add: filter_sort del: filter_filter)
qed

section \<open>Idempotence\<close>

lemma pair_matched:
  assumes "c \<in> set (rows st)" "deletedAt c = None" "email c = e" "phoneNumber c = p"
    and "supplied e \<or> supplied p"
  shows "c \<in> matched st e p"
  using assms by (auto simp: matched_def matchWhere_def supplied_def)

lemma mergeAll_in_survivorFamily:
  assumes "storeInv st" and "primariesOf st e p = oldest # others"
    and "m \<in> matched st e p"
  shows "mergeAll (contactId ` set others) (contactId oldest) (clock st) m
           \<in> set (survivorFamily (rows (mergedStore st oldest others)) oldest)"
proof -
  let ?st1 = "mergedStore st oldest others"
  let ?m1 = "mergeAll (contactId ` set others) (contactId oldest) (clock st) m"
  have inv1: "storeInv ?st1" and o1: "oldest \<in> set (rows ?st1)"
    using mergedStore_inv[OF assms(1,2)] by simp_all
  have f: "flat (rows st)" using assms(1) by (simp add: storeInv_def)
  have f1: "flat (rows ?st1)" using inv1 by (simp add: storeInv_def)
  have op: "linkPrecedence oldest = ''primary''"
    using primariesOf_rows_flat[OF f, of oldest e p] assms(2) by auto
  have m: "m \<in> set (rows st)" "deletedAt m = None"
    using assms(3) by (auto simp: matched_def matchWhere_def)
  then have m1: "?m1 \<in> set (rows ?st1)" by (simp add: mergedStore_def)
  from mergedStore_roots[OF assms] root_oldest_iff[OF f1 m1 o1 op]
  have "contactId ?m1 = contactId oldest \<or> linkedId ?m1 = Some (contactId oldest)" by simp
  with m1 m(2) show ?thesis by (simp add: survivorFamily_def)
qed

text \<open>
  C4. In a store that satisfies the invariants and does not fail, with a contact, not
  tombstoned, whose email and phone are exactly those of the request (an absent one
  being null in the contact), a request that supplies an identifier completes, creates
  no contact, and the same request repeated on the store it leaves returns the same
  response, hence the same \<open>primaryContactId\<close>, and changes nothing.
\<close>

theorem identify_idempotent:
  assumes "tableOk st" and "linksResolve (rows st)" and "failAfter st = None"
    and "c \<in> set (rows st)" and "deletedAt c = None"
    and "email c = email'" and "phoneNumber c = phoneNumber'"
    and "supplied email' \<or> supplied phoneNumber'"
  shows "\<exists>r st'. identifyContact st email' phoneNumber' = (Inr r, st')
           \<and> map contactId (rows st') = map contactId (rows st)
           \<and> identifyContact st' email' phoneNumber' = (Inr r, st')"
proof -
  let ?e = "email'" and ?p = "phoneNumber'"
  have inv: "storeInv st" using assms(1,2) by (simp add: storeInv_iff)
  have f: "flat (rows st)" using inv by (simp add: storeInv_def)
  have cm: "c \<in> matched st ?e ?p" using assms(4-8) by (rule pair_matched)
  have croot: "rootId c \<in> contactId ` set (primariesOf st ?e ?p)"
    using f cm by (rule matched_root_primary)
  show ?thesis
  proof (cases rule: primariesOf_cases[of st ?e ?p])
    case none
    with croot show ?thesis by simp
  next
    case (one primary)
    let ?fam = "familyOf primary (relatedOf st ?e ?p)"
    have pr: "primary \<in> set (rows st)" "linkPrecedence primary = ''primary''"
      "deletedAt primary = None"
      using primariesOf_rows_flat[OF f, of primary ?e ?p] one by auto
    have "inFamilies st ?e ?p c" using cm assms(5) by (auto simp: inFamilies_def)
    then have crel: "c \<in> set (relatedOf st ?e ?p)"
      using assms(4) by (simp add: relatedOf_flat[OF f])
    have "rootId c = contactId primary" using croot one by simp
    with root_oldest_iff[OF f assms(4) pr(1,2)] crel have "c \<in> set ?fam"
      by (simp add: familyOf_def)
    then have nc: "\<not> shouldCreateSecondary ?fam ?e ?p"
      using assms(6,7) by (rule exact_pair_no_create)
    have "primary \<in> set (primariesOf st ?e ?p)" using one by simp
    then have "primary \<in> set (relatedOf st ?e ?p)"
      unfolding primariesOf_related[OF flat_def[THEN iffD1, THEN conjunct1, OF f]] by simp
    then have "\<exists>x \<in> set ?fam. linkPrecedence x = ''primary''"
      using pr(2) by (auto simp: familyOf_def)
    from buildResponse_Inr[OF this] obtain r where "buildResponse ?fam = Inr r" by blast
    with nc identify_one[OF one] have "identifyContact st ?e ?p = (Inr r, st)" by simp
    then show ?thesis by simp
  next
    case many
    then obtain oldest others where ps: "primariesOf st ?e ?p = oldest # others"
      and ne: "others \<noteq> []"
      by (cases "primariesOf st ?e ?p"; cases "tl (primariesOf st ?e ?p)") auto
    let ?st1 = "mergedStore st oldest others"
    let ?fam = "survivorFamily (rows ?st1) oldest"
    let ?c1 = "mergeAll (contactId ` set others) (contactId oldest) (clock st) c"
    have inv1: "storeInv ?st1" and o1: "oldest \<in> set (rows ?st1)"
      using mergedStore_inv[OF inv ps] by simp_all
    have op: "linkPrecedence oldest = ''primary''" "deletedAt oldest = None"
      using primariesOf_rows_flat[OF f, of oldest ?e ?p] ps by auto
    have "?c1 \<in> set ?fam" using inv ps cm by (rule mergeAll_in_survivorFamily)
    moreover have "email ?c1 = ?e" "phoneNumber ?c1 = ?p" using assms(6,7) by simp_all
    ultimately have nc: "\<not> shouldCreateSecondary ?fam ?e ?p"
      by (rule exact_pair_no_create)
    have "oldest \<in> set ?fam" using o1 op(2) by (simp add: survivorFamily_def)
    with op(1) have "\<exists>x \<in> set ?fam. linkPrecedence x = ''primary''" by blast
    from buildResponse_Inr[OF this] obtain r where r: "buildResponse ?fam = Inr r" by blast
    have first: "identifyContact st ?e ?p = (Inr r, ?st1)"
      using identify_merge[OF inv assms(3) ps ne] nc r by simp
    have ids: "map contactId (rows ?st1) = map contactId (rows st)"
      by (simp add: mergedStore_def comp_def)
    have "matched st ?e ?p \<noteq> {}" using cm by blast
    note after = after_merge_one_family[OF inv ps this]
    have second: "identifyContact ?st1 ?e ?p = (Inr r, ?st1)"
      using identify_one[OF after(1)] nc r unfolding after(2) by simp
    from first ids second show ?thesis by blast
  qed
qed

theorem identify_idempotent_witness:
  "tableOk
     \<lparr>rows = [row 1 (Some ''a@x.com'') (Some ''111'') None ''primary'' 10 None,
              row 2 (Some ''b@x.com'') (Some ''222'') None ''primary'' 20 None,
              row 3 (Some ''a@x.com'') (Some ''222'') (Some 1) ''secondary'' 30 None],
      nextId = 4, clock = 100, failAfter = None\<rparr>
   \<and> linksResolve
       [row 1 (Some ''a@x.com'') (Some ''111'') None ''primary'' 10 None,
        row 2 (Some ''b@x.com'') (Some ''222'') None ''primary'' 20 None,
        row 3 (Some ''a@x.com'') (Some ''222'') (Some 1) ''secondary'' 30 None]
   \<and> supplied (Some ''a@x.com'')
   \<and> (\<exists>r st'. identifyContact
         \<lparr>rows = [row 1 (Some ''a@x.com'') (Some ''111'') None ''primary'' 10 None,
                  row 2 (Some ''b@x.com'') (Some ''222'') None ''primary'' 20 None,
                  row 3 (Some ''a@x.com'') (Some ''222'') (Some 1) ''secondary'' 30 None],
          nextId = 4, clock = 100, failAfter = None\<rparr>
         (Some ''a@x.com'') (Some ''222'') = (Inr r, st')
        \<and> map contactId (rows st') = [1, 2, 3]
        \<and> identifyContact st' (Some ''a@x.com'') (Some ''222'') = (Inr r, st'))"
proof -
  let ?c = "row 3 (Some ''a@x.com'') (Some ''222'') (Some 1) ''secondary'' 30 None"
  let ?rs = "[row 1 (Some ''a@x.com'') (Some ''111'') None ''primary'' 10 None,
              row 2 (Some ''b@x.com'') (Some ''222'') None ''primary'' 20 None, ?c]"
  let ?st = "\<lparr>rows = ?rs, nextId = 4, clock = 100, failAfter = None\<rparr>"
  have t: "tableOk ?st" by (simp add: tableOk_def row_def)
  have l: "linksResolve (rows ?st)" by (simp add: linksResolve_def row_def)
  have n: "failAfter ?st = None" by simp
  have c: "?c \<in> set (rows ?st)" "deletedAt ?c = None" "email ?c = Some ''a@x.com''"
    "phoneNumber ?c = Some ''222''"
    by (simp_all add: row_def)
  have s: "supplied (Some ''a@x.com'')" by (simp add: supplied_def truthy_def)
  then have s': "supplied (Some ''a@x.com'') \<or> supplied (Some ''222'')" by simp
  from identify_idempotent[OF t l n c s'] obtain r st' where
    "identifyContact ?st (Some ''a@x.com'') (Some ''222'') = (Inr r, st')"
    "map contactId (rows st') = map contactId (rows ?st)"
    "identifyContact st' (Some ''a@x.com'') (Some ''222'') = (Inr r, st')"
    by blast
  moreover have "map contactId (rows ?st) = [1, 2, 3]" by (simp add: row_def)
  ultimately have "\<exists>r st'. identifyContact ?st (Some ''a@x.com'') (Some ''222'') = (Inr r, st')
        \<and> map contactId (rows st') = [1, 2, 3]
        \<and> identifyContact st' (Some ''a@x.com'') (Some ''222'') = (Inr r, st')"
    by metis
  with t l s show ?thesis by simp
qed

section \<open>The merge of two families\<close>

lemma pair_by_set:
  assumes "distinct (map f xs)" and "set xs = {a, b}" and "a \<noteq> b"
    and "sorted (map g xs)" and "(g a :: nat) < g b"
  shows "xs = [a, b]"
proof -
  have d: "distinct xs" using assms(1) by (simp add: distinct_map)
  then have "length xs = card (set xs)" by (simp add: distinct_card)
  also have "\<dots> = 2" using assms(2,3) by simp
  finally obtain x y where xy: "xs = [x, y]"
    by (metis (no_types) Suc_length_conv length_0_conv numeral_2_eq_2)
  with assms(2) have "{x, y} = {a, b}" by simp
  moreover have "g x \<le> g y" using assms(4) xy by simp
  ultimately have "x = a \<and> y = b" using assms(5) by (auto simp: doubleton_eq_iff)
  with xy show ?thesis by simp
qed

lemma both_present_no_create:
  assumes "a \<in> set family" "email a = e" "b \<in> set family" "phoneNumber b = p"
    and "truthy e" "truthy p"
  shows "\<not> shouldCreateSecondary family e p"
proof -
  from assms(5,6) obtain x y where xy: "e = Some x" "p = Some y"
    by (auto simp: truthy_def split: option.splits)
  have "\<exists>c \<in> set family. strictEq (email c) e" using assms(1,2) xy by (auto simp: strictEq_def)
  moreover have "\<exists>c \<in> set family. strictEq (phoneNumber c) p"
    using assms(3,4) xy by (auto simp: strictEq_def)
  ultimately show ?thesis using assms(5,6) by (simp add: shouldCreateSecondary_def Let_def)
qed

lemma buildResponse_parts:
  assumes "x \<in> set contacts" "linkPrecedence x = ''primary''"
    and "\<forall>c \<in> set contacts. linkPrecedence c = ''primary'' \<longrightarrow> contactId c = k"
  shows "\<exists>r. buildResponse contacts = Inr r \<and> primaryContactId r = k
           \<and> secondaryContactIds r
               = map contactId (filter (\<lambda>c. linkPrecedence c = ''secondary'') contacts)"
proof -
  have "\<exists>c \<in> set contacts. linkPrecedence c = ''primary''" using assms(1,2) by blast
  from find_first_split[OF this] obtain y where
    y: "y \<in> set contacts" "linkPrecedence y = ''primary''"
       "find (\<lambda>c. linkPrecedence c = ''primary'') contacts = Some y"
    by auto
  with assms(3) have "contactId y = k" by blast
  with y(3) show ?thesis by (simp add: buildResponse_def Let_def)
qed

text \<open>
  C1. In a store that satisfies the invariants and does not fail, let \<open>A\<close> and \<open>B\<close> be
  primaries, not tombstoned, \<open>A\<close> created before \<open>B\<close>, and let the request's email be
  the one of \<open>A\<close> and its phone the one of \<open>B\<close>, every contact the request matches
  belonging to the family of \<open>A\<close> or of \<open>B\<close>. Then the request completes; afterwards
  \<open>B\<close> is a secondary linked to \<open>A\<close>, every contact that was linked to \<open>B\<close> is linked
  to \<open>A\<close>, and the response has \<open>A\<close> as \<open>primaryContactId\<close> and lists among the
  \<open>secondaryContactIds\<close> the id of \<open>B\<close> and of every contact, not tombstoned, that was
  linked to \<open>A\<close> or to \<open>B\<close>.
\<close>

theorem merge_two_families:
  assumes "tableOk st" and "linksResolve (rows st)" and "failAfter st = None"
    and "A \<in> set (rows st)" and "linkPrecedence A = ''primary''" and "deletedAt A = None"
    and "B \<in> set (rows st)" and "linkPrecedence B = ''primary''" and "deletedAt B = None"
    and "createdAt A < createdAt B"
    and "supplied email'" and "email A = email'"
    and "supplied phoneNumber'" and "phoneNumber B = phoneNumber'"
    and "\<forall>m \<in> matched st email' phoneNumber'. rootId m = contactId A \<or> rootId m = contactId B"
  shows "\<exists>r st'. identifyContact st email' phoneNumber' = (Inr r, st')
     \<and> (\<exists>b \<in> set (rows st'). contactId b = contactId B \<and> linkPrecedence b = ''secondary''
            \<and> linkedId b = Some (contactId A))
     \<and> (\<forall>s \<in> set (rows st). linkedId s = Some (contactId B) \<longrightarrow>
            (\<exists>s' \<in> set (rows st'). contactId s' = contactId s
               \<and> linkedId s' = Some (contactId A)))
     \<and> primaryContactId r = contactId A
     \<and> contactId B \<in> set (secondaryContactIds r)
     \<and> (\<forall>s \<in> set (rows st).
            deletedAt s = None
            \<and> (linkedId s = Some (contactId A) \<or> linkedId s = Some (contactId B)) \<longrightarrow>
            contactId s \<in> set (secondaryContactIds r))"
proof -
  let ?e = "email'" and ?p = "phoneNumber'"
  let ?K = "contactId ` set [B]"
  let ?g = "mergeAll ?K (contactId A) (clock st)"
  let ?st1 = "mergedStore st A [B]"
  let ?fam = "survivorFamily (rows ?st1) A"
  have inv: "storeInv st" using assms(1,2) by (simp add: storeInv_iff)
  have f: "flat (rows st)" using inv by (simp add: storeInv_def)
  have ab: "A \<noteq> B" using assms(10) by auto
  have idab: "contactId A \<noteq> contactId B"
    using flat_unique[OF f assms(4,7)] ab by blast
  have am: "A \<in> matched st ?e ?p" and bm: "B \<in> matched st ?e ?p"
    using assms(4,6,7,9,11-14) by (auto simp: matched_def matchWhere_def supplied_def)
  have linked_sec: "contactId s \<noteq> contactId B \<and> linkPrecedence s = ''secondary''"
    if "s \<in> set (rows st)" "linkedId s \<noteq> None" for s
  proof -
    from that f have sec: "linkPrecedence s = ''secondary''" by (auto simp: flat_def)
    then have "s \<noteq> B" using assms(8) by auto
    with flat_unique[OF f that(1) assms(7)] sec show ?thesis by blast
  qed
  have set_ps: "set (primariesOf st ?e ?p) = {A, B}"
  proof -
    have "r = A \<or> r = B"
      if "r \<in> set (rows st)" "inFamilies st ?e ?p r" "linkPrecedence r = ''primary''" for r
    proof -
      from that(1,3) f have "linkedId r = None" by (auto simp: flat_def)
      then have "rootId r = contactId r" by (simp add: rootId_def)
      with that(2) assms(15) have "contactId r = contactId A \<or> contactId r = contactId B"
        by (auto simp: inFamilies_def)
      with flat_unique[OF f that(1)] assms(4,7) show ?thesis by blast
    qed
    moreover have "inFamilies st ?e ?p A" "inFamilies st ?e ?p B"
      using am bm assms(6,9) by (auto simp: inFamilies_def)
    ultimately show ?thesis
      unfolding primariesOf_sorted(3)[OF f] using assms(4,5,7,8) by auto
  qed
  have ps: "primariesOf st ?e ?p = A # [B]"
    using primariesOf_sorted(2)[OF f, of ?e ?p] set_ps ab
      primariesOf_sorted(1)[OF f, of ?e ?p] assms(10)
    by (rule pair_by_set)
  have inv1: "storeInv ?st1" and a1: "A \<in> set (rows ?st1)"
    using mergedStore_inv[OF inv ps] by simp_all
  have f1: "flat (rows ?st1)" using inv1 by (simp add: storeInv_def)
  have rows1: "rows ?st1 = map ?g (rows st)" by (simp add: mergedStore_def)
  have gB: "contactId (?g B) = contactId B" "linkPrecedence (?g B) = ''secondary''"
    "linkedId (?g B) = Some (contactId A)" "phoneNumber (?g B) = ?p" "deletedAt (?g B) = None"
    using assms(9,14) by (simp_all add: mergeAll_def)
  have gB1: "?g B \<in> set (rows ?st1)" using assms(7) unfolding rows1 by simp
  have glink: "?g s \<in> set (rows ?st1) \<and> contactId (?g s) = contactId s
                \<and> linkedId (?g s) = Some (contactId A) \<and> linkPrecedence (?g s) = ''secondary''"
    if "s \<in> set (rows st)" "linkedId s = Some (contactId A) \<or> linkedId s = Some (contactId B)"
    for s
  proof -
    from that(2) have "linkedId s \<noteq> None" by auto
    from linked_sec[OF that(1) this] that(2) idab
    have "linkedId (?g s) = Some (contactId A)" "linkPrecedence (?g s) = ''secondary''"
      by (auto simp: mergeAll_def)
    with that(1) show ?thesis unfolding rows1 by simp
  qed
  have afam: "A \<in> set ?fam" using a1 assms(6) by (simp add: survivorFamily_def)
  have bfam: "?g B \<in> set ?fam" using gB1 gB(3,5) by (simp add: survivorFamily_def)
  have nc: "\<not> shouldCreateSecondary ?fam ?e ?p"
    using afam assms(12) bfam gB(4) assms(11,13) unfolding supplied_def
    by (rule both_present_no_create)
  have onlyA: "\<forall>c \<in> set ?fam. linkPrecedence c = ''primary'' \<longrightarrow> contactId c = contactId A"
  proof (intro ballI impI)
    fix c assume c: "c \<in> set ?fam" "linkPrecedence c = ''primary''"
    then have "c \<in> set (rows ?st1)" by (simp add: survivorFamily_def)
    with c(2) f1 have "linkedId c = None" by (auto simp: flat_def)
    with c(1) show "contactId c = contactId A" by (simp add: survivorFamily_def)
  qed
  from buildResponse_parts[OF afam assms(5) onlyA] obtain r where
    r: "buildResponse ?fam = Inr r" "primaryContactId r = contactId A"
       "secondaryContactIds r
          = map contactId (filter (\<lambda>c. linkPrecedence c = ''secondary'') ?fam)"
    by blast
  have res: "identifyContact st ?e ?p = (Inr r, ?st1)"
    using identify_merge[OF inv assms(3) ps] nc r(1) by simp
  have c1: "\<exists>b \<in> set (rows ?st1). contactId b = contactId B \<and> linkPrecedence b = ''secondary''
            \<and> linkedId b = Some (contactId A)"
    using gB1 gB(1-3) by (intro bexI[of _ "?g B"] conjI)
  have c2: "\<forall>s \<in> set (rows st). linkedId s = Some (contactId B) \<longrightarrow>
            (\<exists>s' \<in> set (rows ?st1). contactId s' = contactId s
               \<and> linkedId s' = Some (contactId A))"
  proof (intro ballI impI)
    fix s assume s: "s \<in> set (rows st)" and "linkedId s = Some (contactId B)"
    then have "linkedId s = Some (contactId A) \<or> linkedId s = Some (contactId B)" by simp
    from glink[OF s this] show "\<exists>s' \<in> set (rows ?st1). contactId s' = contactId s
               \<and> linkedId s' = Some (contactId A)"
      by (intro bexI[of _ "?g s"]) simp_all
  qed
  have c4: "contactId B \<in> set (secondaryContactIds r)"
  proof -
    have "?g B \<in> set (filter (\<lambda>c. linkPrecedence c = ''secondary'') ?fam)"
      using bfam gB(2) by simp
    then have "contactId (?g B) \<in> set (secondaryContactIds r)"
      unfolding r(3) set_map by (rule imageI)
    then show ?thesis by (simp only: gB(1))
  qed
  have c5: "\<forall>s \<in> set (rows st).
            deletedAt s = None
            \<and> (linkedId s = Some (contactId A) \<or> linkedId s = Some (contactId B)) \<longrightarrow>
            contactId s \<in> set (secondaryContactIds r)"
  proof (intro ballI impI)
    fix s assume s: "s \<in> set (rows st)"
      and h: "deletedAt s = None
              \<and> (linkedId s = Some (contactId A) \<or> linkedId s = Some (contactId B))"
    from h have "linkedId s = Some (contactId A) \<or> linkedId s = Some (contactId B)" ..
    from glink[OF s this] have g: "?g s \<in> set (rows ?st1)" "contactId (?g s) = contactId s"
      "linkedId (?g s) = Some (contactId A)" "linkPrecedence (?g s) = ''secondary''"
      by simp_all
    have "deletedAt (?g s) = None" using h by simp
    with g(1,3) have "?g s \<in> set ?fam" by (simp add: survivorFamily_def)
    with g(4) have "?g s \<in> set (filter (\<lambda>c. linkPrecedence c = ''secondary'') ?fam)" by simp
    then have "contactId (?g s) \<in> set (secondaryContactIds r)"
      unfolding r(3) set_map by (rule imageI)
    then show "contactId s \<in> set (secondaryContactIds r)" by (simp only: g(2))
  qed
  show ?thesis
    by (intro exI[of _ r] exI[of _ ?st1] conjI res c1 c2 r(2) c4 c5)
qed

theorem merge_two_families_witness:
  "tableOk
     \<lparr>rows = [row 1 (Some ''a@x.com'') (Some ''111'') None ''primary'' 10 None,
              row 2 (Some ''a1@x.com'') (Some ''111'') (Some 1) ''secondary'' 20 None,
              row 3 (Some ''b@x.com'') (Some ''222'') None ''primary'' 30 None,
              row 4 (Some ''b1@x.com'') (Some ''222'') (Some 3) ''secondary'' 40 None],
      nextId = 5, clock = 100, failAfter = None\<rparr>
   \<and> linksResolve
       [row 1 (Some ''a@x.com'') (Some ''111'') None ''primary'' 10 None,
        row 2 (Some ''a1@x.com'') (Some ''111'') (Some 1) ''secondary'' 20 None,
        row 3 (Some ''b@x.com'') (Some ''222'') None ''primary'' 30 None,
        row 4 (Some ''b1@x.com'') (Some ''222'') (Some 3) ''secondary'' 40 None]
   \<and> supplied (Some ''a@x.com'') \<and> supplied (Some ''222'')
   \<and> (\<exists>r st'. identifyContact
         \<lparr>rows = [row 1 (Some ''a@x.com'') (Some ''111'') None ''primary'' 10 None,
                  row 2 (Some ''a1@x.com'') (Some ''111'') (Some 1) ''secondary'' 20 None,
                  row 3 (Some ''b@x.com'') (Some ''222'') None ''primary'' 30 None,
                  row 4 (Some ''b1@x.com'') (Some ''222'') (Some 3) ''secondary'' 40 None],
          nextId = 5, clock = 100, failAfter = None\<rparr>
         (Some ''a@x.com'') (Some ''222'') = (Inr r, st')
        \<and> (\<exists>b \<in> set (rows st'). contactId b = 3 \<and> linkPrecedence b = ''secondary''
               \<and> linkedId b = Some 1)
        \<and> (\<exists>s' \<in> set (rows st'). contactId s' = 4 \<and> linkedId s' = Some 1)
        \<and> primaryContactId r = 1
        \<and> 3 \<in> set (secondaryContactIds r)
        \<and> 2 \<in> set (secondaryContactIds r)
        \<and> 4 \<in> set (secondaryContactIds r))"
proof -
  let ?A = "row 1 (Some ''a@x.com'') (Some ''111'') None ''primary'' 10 None"
  let ?A1 = "row 2 (Some ''a1@x.com'') (Some ''111'') (Some 1) ''secondary'' 20 None"
  let ?B = "row 3 (Some ''b@x.com'') (Some ''222'') None ''primary'' 30 None"
  let ?B1 = "row 4 (Some ''b1@x.com'') (Some ''222'') (Some 3) ''secondary'' 40 None"
  let ?rs = "[?A, ?A1, ?B, ?B1]"
  let ?st = "\<lparr>rows = ?rs, nextId = 5, clock = 100, failAfter = None\<rparr>"
  let ?e = "Some ''a@x.com''" and ?p = "Some ''222''"
  have t: "tableOk ?st" by (simp add: tableOk_def row_def)
  have l: "linksResolve (rows ?st)" by (simp add: linksResolve_def row_def)
  have n: "failAfter ?st = None" by simp
  have a: "?A \<in> set (rows ?st)" "linkPrecedence ?A = ''primary''" "deletedAt ?A = None"
    by (simp_all add: row_def)
  have b: "?B \<in> set (rows ?st)" "linkPrecedence ?B = ''primary''" "deletedAt ?B = None"
    by (simp_all add: row_def)
  have lt: "createdAt ?A < createdAt ?B" by (simp add: row_def)
  have se: "supplied ?e" and sp: "supplied ?p" by (simp_all add: supplied_def truthy_def)
  have ea: "email ?A = ?e" and pb: "phoneNumber ?B = ?p" by (simp_all add: row_def)
  have m: "\<forall>m \<in> matched ?st ?e ?p. rootId m = contactId ?A \<or> rootId m = contactId ?B"
    by (auto simp: matched_def matchWhere_def rootId_def row_def)
  from merge_two_families[OF t l n a b lt se ea sp pb m] obtain r st' where
    res: "identifyContact ?st ?e ?p = (Inr r, st')"
    and c1: "\<exists>b \<in> set (rows st'). contactId b = contactId ?B \<and> linkPrecedence b = ''secondary''
            \<and> linkedId b = Some (contactId ?A)"
    and c2: "\<forall>s \<in> set (rows ?st). linkedId s = Some (contactId ?B) \<longrightarrow>
            (\<exists>s' \<in> set (rows st'). contactId s' = contactId s
               \<and> linkedId s' = Some (contactId ?A))"
    and c3: "primaryContactId r = contactId ?A"
    and c4: "contactId ?B \<in> set (secondaryContactIds r)"
    and c5: "\<forall>s \<in> set (rows ?st).
            deletedAt s = None
            \<and> (linkedId s = Some (contactId ?A) \<or> linkedId s = Some (contactId ?B)) \<longrightarrow>
            contactId s \<in> set (secondaryContactIds r)"
    by blast
  have d1: "\<exists>b \<in> set (rows st'). contactId b = 3 \<and> linkPrecedence b = ''secondary''
               \<and> linkedId b = Some 1"
    using c1 by (simp add: row_def)
  have "?B1 \<in> set (rows ?st)" "linkedId ?B1 = Some (contactId ?B)" by (simp_all add: row_def)
  with c2 have "\<exists>s' \<in> set (rows st'). contactId s' = contactId ?B1
               \<and> linkedId s' = Some (contactId ?A)" by blast
  then have d2: "\<exists>s' \<in> set (rows st'). contactId s' = 4 \<and> linkedId s' = Some 1"
    by (simp add: row_def)
  have d3: "primaryContactId r = 1" using c3 by (simp add: row_def)
  have d4: "3 \<in> set (secondaryContactIds r)" using c4 by (simp add: row_def)
  have "?A1 \<in> set (rows ?st)" "deletedAt ?A1 = None
     \<and> (linkedId ?A1 = Some (contactId ?A) \<or> linkedId ?A1 = Some (contactId ?B))"
    by (simp_all add: row_def)
  with c5 have "contactId ?A1 \<in> set (secondaryContactIds r)" by blast
  then have d5: "2 \<in> set (secondaryContactIds r)" by (simp add: row_def)
  have "?B1 \<in> set (rows ?st)" "deletedAt ?B1 = None
     \<and> (linkedId ?B1 = Some (contactId ?A) \<or> linkedId ?B1 = Some (contactId ?B))"
    by (simp_all add: row_def)
  with c5 have "contactId ?B1 \<in> set (secondaryContactIds r)" by blast
  then have d6: "4 \<in> set (secondaryContactIds r)" by (simp add: row_def)
  have "\<exists>r st'. identifyContact ?st ?e ?p = (Inr r, st')
        \<and> (\<exists>b \<in> set (rows st'). contactId b = 3 \<and> linkPrecedence b = ''secondary''
               \<and> linkedId b = Some 1)
        \<and> (\<exists>s' \<in> set (rows st'). contactId s' = 4 \<and> linkedId s' = Some 1)
        \<and> primaryContactId r = 1
        \<and> 3 \<in> set (secondaryContactIds r)
        \<and> 2 \<in> set (secondaryContactIds r)
        \<and> 4 \<in> set (secondaryContactIds r)"
    by (intro exI[of _ r] exI[of _ st'] conjI res d1 d2 d3 d4 d5 d6)
  with t l se sp show ?thesis by simp
qed

section \<open>The list a request hands to buildResponse\<close>

lemma map_createdAt_demote [simp]: "map createdAt (demote rs k n now) = map createdAt rs"
  by (induction rs) (auto simp: demote_def)

lemma map_createdAt_repoint [simp]: "map createdAt (repoint rs k n) = map createdAt rs"
  by (induction rs) (auto simp: repoint_def)

lemma mergeLoop_keeps:
  "mergeLoop st oldestId others = (x, st1) \<Longrightarrow>
   map createdAt (rows st1) = map createdAt (rows st)
   \<and> nextId st1 = nextId st \<and> clock st1 = clock st"
proof (induction others arbitrary: st)
  case Nil
  then show ?case by simp
next
  case (Cons p ps)
  obtain y sa where u: "db_update st (contactId p) oldestId = (y, sa)"
    by (cases "db_update st (contactId p) oldestId") auto
  have ka: "map createdAt (rows sa) = map createdAt (rows st)
              \<and> nextId sa = nextId st \<and> clock sa = clock st"
    using u by (auto simp: db_update_def spend_def split: if_splits)
  show ?case
  proof (cases y)
    case (Inl e)
    with Cons.prems u have "st1 = sa" by simp
    with ka show ?thesis by simp
  next
    case (Inr v)
    obtain z sb where m: "db_updateMany sa (contactId p) oldestId = (z, sb)"
      by (cases "db_updateMany sa (contactId p) oldestId") auto
    have kb: "map createdAt (rows sb) = map createdAt (rows sa)
              \<and> nextId sb = nextId sa \<and> clock sb = clock sa"
      using m by (auto simp: db_updateMany_def spend_def split: if_splits)
    show ?thesis
    proof (cases z)
      case (Inl e)
      with Cons.prems u Inr m have "st1 = sb" by simp
      with ka kb show ?thesis by simp
    next
      case (Inr w)
      with Cons.prems u \<open>y = Inr v\<close> m have "mergeLoop sb oldestId ps = (x, st1)" by simp
      from Cons.IH[OF this] ka kb show ?thesis by simp
    qed
  qed
qed

lemma sorted_getAllRelatedContacts: "sorted (map createdAt (getAllRelatedContacts rs seeds))"
  by (simp add: getAllRelatedContacts_def findManyAsc_def)

lemma handed_list:
  assumes "identifyContact st e p = (Inr r, st')"
  shows "\<exists>stored new.
           buildResponse (stored @ new) = Inr r
         \<and> sorted (map createdAt stored)
         \<and> set stored \<subseteq> set (rows st')
         \<and> createdAt ` set stored \<subseteq> createdAt ` set (rows st)
         \<and> (new = [] \<or> (\<exists>c. new = [c] \<and> contactId c = nextId st \<and> createdAt c = clock st))"
proof (cases rule: primariesOf_cases[of st e p])
  case none
  obtain y st1 where cr: "db_create st e p None ''primary'' = (y, st1)"
    by (cases "db_create st e p None ''primary''") auto
  with assms identify_none[OF none] obtain c where y: "y = Inr c" and b: "buildResponse [c] = Inr r"
    and s1: "st' = st1"
    by (cases y) auto
  from db_create_Inr[OF cr[unfolded y]] have "contactId c = nextId st" "createdAt c = clock st"
    by auto
  with b show ?thesis
    by (intro exI[of _ "[]"] exI[of _ "[c]"]) simp
next
  case (one primary)
  let ?fam = "familyOf primary (relatedOf st e p)"
  have srt: "sorted (map createdAt ?fam)"
    unfolding familyOf_def relatedOf_def
    by (intro sorted_filter sorted_getAllRelatedContacts)
  have sub0: "set ?fam \<subseteq> set (rows st)"
    by (auto simp: familyOf_def relatedOf_def set_getAllRelatedContacts split: if_splits)
  then have sub: "createdAt ` set ?fam \<subseteq> createdAt ` set (rows st)" by blast
  note ic = identify_one[OF one]
  show ?thesis
  proof (cases "shouldCreateSecondary ?fam e p")
    case False
    with assms ic have "buildResponse (?fam @ []) = Inr r" "st' = st" by auto
    with srt sub sub0 show ?thesis by (intro exI[of _ ?fam] exI[of _ "[]"]) simp
  next
    case True
    obtain y st1 where cr: "db_create st e p (Some (contactId primary)) ''secondary'' = (y, st1)"
      by (cases "db_create st e p (Some (contactId primary)) ''secondary''") auto
    with assms ic True obtain c where y: "y = Inr c" and b: "buildResponse (?fam @ [c]) = Inr r"
      and s1: "st' = st1"
      by (cases y) auto
    from db_create_Inr[OF cr[unfolded y]] have "contactId c = nextId st" "createdAt c = clock st"
      "rows st1 = rows st @ [c]"
      by auto
    with b srt sub sub0 s1 show ?thesis by (intro exI[of _ ?fam] exI[of _ "[c]"]) auto
  qed
next
  case many
  let ?ps = "primariesOf st e p"
  from assms many have mp: "mergePrimaries st ?ps (relatedOf st e p) e p = (Inr r, st')"
    by (simp add: identify_many)
  then obtain oldest where o: "oldestOf ?ps = Inr oldest"
    by (cases "oldestOf ?ps") (auto simp: mergePrimaries_def)
  let ?others = "filter (\<lambda>q. contactId q \<noteq> contactId oldest) ?ps"
  obtain x st1 where ml: "mergeLoop st (contactId oldest) ?others = (x, st1)"
    by (cases "mergeLoop st (contactId oldest) ?others") auto
  with mp o obtain u where x: "x = Inr u" by (cases x) (auto simp: mergePrimaries_def)
  note keep = mergeLoop_keeps[OF ml]
  let ?fam = "findManyAsc (rows st1)
                (\<lambda>r. (contactId r = contactId oldest \<or> linkedId r = Some (contactId oldest))
                      \<and> deletedAt r = None)"
  have srt: "sorted (map createdAt ?fam)" by (simp add: findManyAsc_def)
  have sub1: "set ?fam \<subseteq> set (rows st1)" by auto
  have "createdAt ` set ?fam \<subseteq> createdAt ` set (rows st1)" by auto
  also have "\<dots> = createdAt ` set (rows st)" using keep by (metis set_map)
  finally have sub: "createdAt ` set ?fam \<subseteq> createdAt ` set (rows st)" .
  show ?thesis
  proof (cases "shouldCreateSecondary ?fam e p")
    case False
    with mp o ml x have "buildResponse (?fam @ []) = Inr r" "st' = st1"
      by (auto simp: mergePrimaries_def)
    with srt sub sub1 show ?thesis by (intro exI[of _ ?fam] exI[of _ "[]"]) simp
  next
    case True
    obtain y st2 where cr: "db_create st1 e p (Some (contactId oldest)) ''secondary'' = (y, st2)"
      by (cases "db_create st1 e p (Some (contactId oldest)) ''secondary''") auto
    with mp o ml x True obtain c where y: "y = Inr c" and b: "buildResponse (?fam @ [c]) = Inr r"
      and s2: "st' = st2"
      by (cases y) (auto simp: mergePrimaries_def)
    from db_create_Inr[OF cr[unfolded y]] keep
    have "contactId c = nextId st" "createdAt c = clock st" "rows st2 = rows st1 @ [c]" by auto
    with b srt sub sub1 s2 show ?thesis by (intro exI[of _ ?fam] exI[of _ "[c]"]) auto
  qed
qed

text \<open>
  C8, as stated, fails twice. A secondary whose email is the empty string has a value
  that is neither null nor already included, and the response leaves it out: the tests
  of \<open>buildResponse\<close> are tests of truthiness. And \<open>buildResponse\<close> does not sort: it
  keeps the order of the list it is given, in which a contact the request has just
  created comes last; with the clock at 15 and a secondary created at 20, the ids come
  as 2, 3 while the \<open>createdAt\<close> are 20, 15.
\<close>

theorem response_skips_empty_strings:
  "buildResponse [row 1 (Some ''p@x.com'') (Some ''111'') None ''primary'' 10 None,
                  row 2 (Some '''') (Some ''222'') (Some 1) ''secondary'' 20 None]
     = Inr \<lparr>primaryContactId = 1, emails = [''p@x.com''], phoneNumbers = [''111'', ''222''],
            secondaryContactIds = [2]\<rparr>
   \<and> listedValues email (row 1 (Some ''p@x.com'') (Some ''111'') None ''primary'' 10 None)
        [row 2 (Some '''') (Some ''222'') (Some 1) ''secondary'' 20 None]
     = [''p@x.com'', '''']
   \<and> identifyContact
       \<lparr>rows = [row 1 (Some ''a@x.com'') (Some ''111'') None ''primary'' 10 None,
                row 2 (Some ''b@x.com'') (Some ''111'') (Some 1) ''secondary'' 20 None],
        nextId = 3, clock = 15, failAfter = None\<rparr>
       (Some ''a@x.com'') (Some ''999'')
     = (Inr \<lparr>primaryContactId = 1, emails = [''a@x.com'', ''b@x.com''],
             phoneNumbers = [''111'', ''999''], secondaryContactIds = [2, 3]\<rparr>,
        \<lparr>rows = [row 1 (Some ''a@x.com'') (Some ''111'') None ''primary'' 10 None,
                 row 2 (Some ''b@x.com'') (Some ''111'') (Some 1) ''secondary'' 20 None,
                 row 3 (Some ''a@x.com'') (Some ''999'') (Some 1) ''secondary'' 15 None],
         nextId = 4, clock = 15, failAfter = None\<rparr>)"
  by code_simp

text \<open>
  C8, amended. For a family list with a primary, the response's \<open>emails\<close> and
  \<open>phoneNumbers\<close> have no duplicates; each is the primary's value first whenever it has
  a non-empty one, then each secondary's value in the order of the list, skipping nulls,
  empty strings and values already included; \<open>secondaryContactIds\<close> lists every
  secondary's id in the order of the list. The list from which a completed request
  builds its response is made of rows of the table in ascending \<open>createdAt\<close> order,
  followed by the contact the request created, if any; so the whole list is in
  ascending \<open>createdAt\<close> order whenever the clock is not behind the \<open>createdAt\<close> of a
  stored contact.
\<close>

theorem response_lists:
  "(find (\<lambda>c. linkPrecedence c = ''primary'') contacts = Some primary \<longrightarrow>
      (\<exists>r. buildResponse contacts = Inr r
         \<and> distinct (emails r) \<and> distinct (phoneNumbers r)
         \<and> emails r = listedValues (\<lambda>c. nonEmpty (email c)) primary
                         (filter (\<lambda>c. linkPrecedence c = ''secondary'') contacts)
         \<and> phoneNumbers r = listedValues (\<lambda>c. nonEmpty (phoneNumber c)) primary
                               (filter (\<lambda>c. linkPrecedence c = ''secondary'') contacts)
         \<and> (\<forall>v. email primary = Some v \<and> v \<noteq> [] \<longrightarrow> (\<exists>rest. emails r = v # rest))
         \<and> (\<forall>v. phoneNumber primary = Some v \<and> v \<noteq> [] \<longrightarrow>
                (\<exists>rest. phoneNumbers r = v # rest))
         \<and> secondaryContactIds r
             = map contactId (filter (\<lambda>c. linkPrecedence c = ''secondary'') contacts)))
   \<and> (identifyContact st email' phoneNumber' = (Inr response, st') \<longrightarrow>
      (\<exists>stored new.
           buildResponse (stored @ new) = Inr response
         \<and> sorted (map createdAt stored)
         \<and> set stored \<subseteq> set (rows st')
         \<and> createdAt ` set stored \<subseteq> createdAt ` set (rows st)
         \<and> (new = [] \<or> (\<exists>c. new = [c] \<and> contactId c = nextId st \<and> createdAt c = clock st))
         \<and> ((\<forall>x \<in> set (rows st). createdAt x \<le> clock st) \<longrightarrow>
               sorted (map createdAt (stored @ new)))))"
proof (intro conjI impI)
  assume f: "find (\<lambda>c. linkPrecedence c = ''primary'') contacts = Some primary"
  let ?secs = "filter (\<lambda>c. linkPrecedence c = ''secondary'') contacts"
  let ?r = "\<lparr>primaryContactId = contactId primary,
             emails = collectValues email (firstValue (email primary)) ?secs,
             phoneNumbers = collectValues phoneNumber (firstValue (phoneNumber primary)) ?secs,
             secondaryContactIds = map contactId ?secs\<rparr>"
  have r: "buildResponse contacts = Inr ?r"
    using f by (simp add: buildResponse_def Let_def)
  have d1: "distinct (emails ?r)" and d2: "distinct (phoneNumbers ?r)"
    by (simp_all add: collectValues_distinct firstValue_distinct)
  have l1: "emails ?r = listedValues (\<lambda>c. nonEmpty (email c)) primary ?secs"
    and l2: "phoneNumbers ?r = listedValues (\<lambda>c. nonEmpty (phoneNumber c)) primary ?secs"
    by (simp_all add: collectValues_listed)
  have f1: "\<forall>v. email primary = Some v \<and> v \<noteq> [] \<longrightarrow> (\<exists>rest. emails ?r = v # rest)"
    using collectValues_extends[of email "firstValue (email primary)" ?secs]
    by (auto simp: firstValue_def)
  have f2: "\<forall>v. phoneNumber primary = Some v \<and> v \<noteq> [] \<longrightarrow> (\<exists>rest. phoneNumbers ?r = v # rest)"
    using collectValues_extends[of phoneNumber "firstValue (phoneNumber primary)" ?secs]
    by (auto simp: firstValue_def)
  have i: "secondaryContactIds ?r = map contactId ?secs" by simp
  show "\<exists>r. buildResponse contacts = Inr r
         \<and> distinct (emails r) \<and> distinct (phoneNumbers r)
         \<and> emails r = listedValues (\<lambda>c. nonEmpty (email c)) primary ?secs
         \<and> phoneNumbers r = listedValues (\<lambda>c. nonEmpty (phoneNumber c)) primary ?secs
         \<and> (\<forall>v. email primary = Some v \<and> v \<noteq> [] \<longrightarrow> (\<exists>rest. emails r = v # rest))
         \<and> (\<forall>v. phoneNumber primary = Some v \<and> v \<noteq> [] \<longrightarrow>
                (\<exists>rest. phoneNumbers r = v # rest))
         \<and> secondaryContactIds r = map contactId ?secs"
    by (intro exI[of _ ?r] conjI r d1 d2 l1 l2 f1 f2 i)
next
  assume "identifyContact st email' phoneNumber' = (Inr response, st')"
  from handed_list[OF this] obtain stored new where h:
    "buildResponse (stored @ new) = Inr response"
    "sorted (map createdAt stored)"
    "createdAt ` set stored \<subseteq> createdAt ` set (rows st)"
    "new = [] \<or> (\<exists>c. new = [c] \<and> contactId c = nextId st \<and> createdAt c = clock st)"
    "set stored \<subseteq> set (rows st')"
    by blast
  have "sorted (map createdAt (stored @ new))" if le: "\<forall>x \<in> set (rows st). createdAt x \<le> clock st"
  proof -
    have "\<forall>y \<in> set stored. createdAt y \<le> clock st" using h(3) le by auto
    with h(2,4) show ?thesis by (auto simp: sorted_append)
  qed
  with h show "\<exists>stored new.
           buildResponse (stored @ new) = Inr response
         \<and> sorted (map createdAt stored)
         \<and> set stored \<subseteq> set (rows st')
         \<and> createdAt ` set stored \<subseteq> createdAt ` set (rows st)
         \<and> (new = [] \<or> (\<exists>c. new = [c] \<and> contactId c = nextId st \<and> createdAt c = clock st))
         \<and> ((\<forall>x \<in> set (rows st). createdAt x \<le> clock st) \<longrightarrow>
               sorted (map createdAt (stored @ new)))"
    by (intro exI[of _ stored] exI[of _ new] conjI) simp_all
qed

theorem response_lists_witness:
  "find (\<lambda>c. linkPrecedence c = ''primary'')
     [row 1 (Some ''p@x.com'') (Some ''111'') None ''primary'' 10 None,
      row 2 (Some '''') (Some ''222'') (Some 1) ''secondary'' 20 None,
      row 3 (Some ''p@x.com'') (Some ''333'') (Some 1) ''secondary'' 30 None]
     = Some (row 1 (Some ''p@x.com'') (Some ''111'') None ''primary'' 10 None)
   \<and> (\<exists>r. buildResponse
       [row 1 (Some ''p@x.com'') (Some ''111'') None ''primary'' 10 None,
        row 2 (Some '''') (Some ''222'') (Some 1) ''secondary'' 20 None,
        row 3 (Some ''p@x.com'') (Some ''333'') (Some 1) ''secondary'' 30 None] = Inr r
        \<and> distinct (emails r) \<and> (\<exists>rest. emails r = ''p@x.com'' # rest)
        \<and> secondaryContactIds r = [2, 3])
   \<and> identifyContact
       \<lparr>rows = [row 1 (Some ''a@x.com'') (Some ''111'') None ''primary'' 10 None,
                row 2 (Some ''b@x.com'') (Some ''111'') (Some 1) ''secondary'' 20 None],
        nextId = 3, clock = 100, failAfter = None\<rparr>
       (Some ''a@x.com'') (Some ''999'')
     = (Inr \<lparr>primaryContactId = 1, emails = [''a@x.com'', ''b@x.com''],
             phoneNumbers = [''111'', ''999''], secondaryContactIds = [2, 3]\<rparr>,
        \<lparr>rows = [row 1 (Some ''a@x.com'') (Some ''111'') None ''primary'' 10 None,
                 row 2 (Some ''b@x.com'') (Some ''111'') (Some 1) ''secondary'' 20 None,
                 row 3 (Some ''a@x.com'') (Some ''999'') (Some 1) ''secondary'' 100 None],
         nextId = 4, clock = 100, failAfter = None\<rparr>)
   \<and> (\<exists>stored new.
         buildResponse (stored @ new)
           = Inr \<lparr>primaryContactId = 1, emails = [''a@x.com'', ''b@x.com''],
                  phoneNumbers = [''111'', ''999''], secondaryContactIds = [2, 3]\<rparr>
       \<and> sorted (map createdAt stored)
       \<and> (new = [] \<or> (\<exists>c. new = [c] \<and> contactId c = 3 \<and> createdAt c = 100))
       \<and> sorted (map createdAt (stored @ new)))"
proof -
  let ?cs = "[row 1 (Some ''p@x.com'') (Some ''111'') None ''primary'' 10 None,
      row 2 (Some '''') (Some ''222'') (Some 1) ''secondary'' 20 None,
      row 3 (Some ''p@x.com'') (Some ''333'') (Some 1) ''secondary'' 30 None]"
  let ?p = "row 1 (Some ''p@x.com'') (Some ''111'') None ''primary'' 10 None"
  let ?st = "\<lparr>rows = [row 1 (Some ''a@x.com'') (Some ''111'') None ''primary'' 10 None,
                row 2 (Some ''b@x.com'') (Some ''111'') (Some 1) ''secondary'' 20 None],
        nextId = 3, clock = 100, failAfter = None\<rparr>"
  let ?st' = "\<lparr>rows = [row 1 (Some ''a@x.com'') (Some ''111'') None ''primary'' 10 None,
                 row 2 (Some ''b@x.com'') (Some ''111'') (Some 1) ''secondary'' 20 None,
                 row 3 (Some ''a@x.com'') (Some ''999'') (Some 1) ''secondary'' 100 None],
         nextId = 4, clock = 100, failAfter = None\<rparr>"
  let ?resp = "\<lparr>primaryContactId = 1, emails = [''a@x.com'', ''b@x.com''],
             phoneNumbers = [''111'', ''999''], secondaryContactIds = [2, 3]\<rparr>"
  note inst = response_lists[of ?cs ?p ?st "Some ''a@x.com''" "Some ''999''" ?resp ?st']
  have f: "find (\<lambda>c. linkPrecedence c = ''primary'') ?cs = Some ?p"
    by (simp add: row_def)
  from inst f obtain r where r:
    "buildResponse ?cs = Inr r" "distinct (emails r)"
    "\<forall>v. email ?p = Some v \<and> v \<noteq> [] \<longrightarrow> (\<exists>rest. emails r = v # rest)"
    "secondaryContactIds r
       = map contactId (filter (\<lambda>c. linkPrecedence c = ''secondary'') ?cs)"
    by blast
  then have first: "\<exists>r. buildResponse ?cs = Inr r
        \<and> distinct (emails r) \<and> (\<exists>rest. emails r = ''p@x.com'' # rest)
        \<and> secondaryContactIds r = [2, 3]"
    by (intro exI[of _ r]) (simp add: row_def)
  have run: "identifyContact ?st (Some ''a@x.com'') (Some ''999'') = (Inr ?resp, ?st')"
    by code_simp
  have le: "\<forall>x \<in> set (rows ?st). createdAt x \<le> clock ?st" by (simp add: row_def)
  from inst[THEN conjunct2, THEN mp, OF run] obtain stored new where h:
    "buildResponse (stored @ new) = Inr ?resp"
    "sorted (map createdAt stored)"
    "set stored \<subseteq> set (rows ?st')"
    "createdAt ` set stored \<subseteq> createdAt ` set (rows ?st)"
    "new = [] \<or> (\<exists>c. new = [c] \<and> contactId c = nextId ?st \<and> createdAt c = clock ?st)"
    "(\<forall>x \<in> set (rows ?st). createdAt x \<le> clock ?st) \<longrightarrow>
               sorted (map createdAt (stored @ new))"
    by (elim exE conjE) (rule that, assumption+)
  from h(6) le have "sorted (map createdAt (stored @ new))" by (rule mp)
  moreover from h(5) have "new = [] \<or> (\<exists>c. new = [c] \<and> contactId c = 3 \<and> createdAt c = 100)"
    by simp
  ultimately have second: "\<exists>stored new.
         buildResponse (stored @ new) = Inr ?resp
       \<and> sorted (map createdAt stored)
       \<and> (new = [] \<or> (\<exists>c. new = [c] \<and> contactId c = 3 \<and> createdAt c = 100))
       \<and> sorted (map createdAt (stored @ new))"
    using h(1,2) by (intro exI[of _ stored] exI[of _ new] conjI)
  from f first run second show ?thesis by (intro conjI)
qed

end
